theory Spec2Isabelle
  imports Main "HOL-Library.Word"
begin

text \<open>
  A model of \<^verbatim>\<open>public/chat.js\<close>, the front end of a chat application: the framer of
  server-sent events (\<^verbatim>\<open>consumeSseEvents\<close>), the interpretation of an event's payload
  (\<^verbatim>\<open>appendChunkFromSseData\<close>), the loop that reads the response body, and the request and
  response cycle (\<^verbatim>\<open>sendMessage\<close>) with the part of the page it changes.
\<close>

section \<open>JavaScript strings\<close>

text \<open>
  A JavaScript string is a sequence of UTF-16 code units. The string methods that
  \<^verbatim>\<open>public/chat.js\<close> calls are written out below with the behaviour ECMAScript gives them
  on the arguments the program passes.
\<close>

type_synonym code_unit = "16 word"
type_synonym jsstring = "code_unit list"

definition js :: "string \<Rightarrow> jsstring" where
  \<comment> \<open>an ASCII literal as a JavaScript string\<close>
  "js s = map (\<lambda>c. of_nat (of_char c)) s"

abbreviation LF :: code_unit where "LF \<equiv> 0x0A"
abbreviation CR :: code_unit where "CR \<equiv> 0x0D"

definition isWhiteSpace :: "code_unit \<Rightarrow> bool" where
  \<comment> \<open>the code units that \<^verbatim>\<open>trim\<close> and \<^verbatim>\<open>trimStart\<close> remove: WhiteSpace and LineTerminator\<close>
  "isWhiteSpace c \<longleftrightarrow>
     c = 0x09 \<or> c = 0x0A \<or> c = 0x0B \<or> c = 0x0C \<or> c = 0x0D \<or> c = 0x20 \<or> c = 0xA0 \<or>
     c = 0x1680 \<or> (0x2000 \<le> c \<and> c \<le> 0x200A) \<or> c = 0x2028 \<or> c = 0x2029 \<or>
     c = 0x202F \<or> c = 0x205F \<or> c = 0x3000 \<or> c = 0xFEFF"

definition trimStart :: "jsstring \<Rightarrow> jsstring" where
  "trimStart s = dropWhile isWhiteSpace s"

definition trim :: "jsstring \<Rightarrow> jsstring" where
  "trim s = rev (dropWhile isWhiteSpace (rev (dropWhile isWhiteSpace s)))"

definition startsWith :: "jsstring \<Rightarrow> jsstring \<Rightarrow> bool" where
  "startsWith s pat \<longleftrightarrow> take (length pat) s = pat"

fun indexOf :: "jsstring \<Rightarrow> jsstring \<Rightarrow> nat option" where
  \<comment> \<open>\<^verbatim>\<open>s.indexOf(pat)\<close>; \<open>None\<close> stands for -1\<close>
  "indexOf [] pat = (if pat = [] then Some 0 else None)"
| "indexOf (c # cs) pat =
     (if startsWith (c # cs) pat then Some 0 else map_option Suc (indexOf cs pat))"

fun split_on :: "jsstring \<Rightarrow> code_unit \<Rightarrow> jsstring list" where
  \<comment> \<open>\<^verbatim>\<open>s.split(sep)\<close> for a separator of one code unit\<close>
  "split_on [] sep = [[]]"
| "split_on (c # cs) sep =
     (if c = sep then [] # split_on cs sep
      else (case split_on cs sep of [] \<Rightarrow> [[c]] | l # ls \<Rightarrow> (c # l) # ls))"

fun join :: "jsstring list \<Rightarrow> jsstring \<Rightarrow> jsstring" where
  "join [] sep = []"
| "join [x] sep = x"
| "join (x # y # ys) sep = x @ sep @ join (y # ys) sep"

definition replace_all :: "code_unit \<Rightarrow> jsstring \<Rightarrow> jsstring \<Rightarrow> jsstring" where
  \<comment> \<open>\<^verbatim>\<open>s.replace(/c/g, r)\<close> for a pattern of one literal character\<close>
  "replace_all c r s = concat (map (\<lambda>x. if x = c then r else [x]) s)"

section \<open>The event framer: \<^verbatim>\<open>consumeSseEvents\<close>\<close>

record parsed =
  events :: "jsstring list"
  buffer :: jsstring

definition dataPrefix :: jsstring where
  "dataPrefix = js ''data:''"

definition blankLine :: jsstring where
  "blankLine = [LF, LF]"

fun dataLines_of :: "jsstring list \<Rightarrow> jsstring list" where
  \<comment> \<open>the inner \<^verbatim>\<open>for (const line of lines)\<close> loop, lines 242 to 246\<close>
  "dataLines_of [] = []"
| "dataLines_of (line # lines) =
     (if startsWith line dataPrefix
      then trimStart (drop (length dataPrefix) line) # dataLines_of lines
      else dataLines_of lines)"

lemma indexOf_bound:
  "indexOf s pat = Some i \<Longrightarrow> i + length pat \<le> length s"
proof (induction s arbitrary: i)
  case Nil
  then show ?case by (simp split: if_splits)
next
  case (Cons c cs)
  show ?case
  proof (cases "startsWith (c # cs) pat")
    case True
    then have "length (take (length pat) (c # cs)) = length pat"
      unfolding startsWith_def by simp
    then have "length pat \<le> length (c # cs)"
      by simp
    with True Cons.prems show ?thesis by simp
  next
    case False
    with Cons.prems obtain j where "indexOf cs pat = Some j" "i = Suc j"
      by auto
    with Cons.IH show ?thesis by fastforce
  qed
qed

function consumeLoop :: "jsstring \<Rightarrow> jsstring list \<Rightarrow> parsed" where
  \<comment> \<open>the \<^verbatim>\<open>while\<close> loop of lines 236 to 249, on the locals \<^verbatim>\<open>normalized\<close> and \<^verbatim>\<open>events\<close>\<close>
  "consumeLoop normalized evs =
     (case indexOf normalized blankLine of
        None \<Rightarrow> \<lparr>events = evs, buffer = normalized\<rparr>
      | Some eventEndIndex \<Rightarrow>
          (let rawEvent = take eventEndIndex normalized;
               normalized' = drop (eventEndIndex + 2) normalized;
               dataLines = dataLines_of (split_on rawEvent LF)
           in if dataLines = [] then consumeLoop normalized' evs
              else consumeLoop normalized' (evs @ [join dataLines [LF]])))"
  by pat_completeness auto
termination
  by (relation "measure (\<lambda>(normalized, evs). length normalized)")
     (auto dest!: indexOf_bound simp: blankLine_def)

definition consumeSseEvents :: "jsstring \<Rightarrow> parsed" where
  "consumeSseEvents buf = consumeLoop (replace_all CR [] buf) []"

section \<open>\<^verbatim>\<open>JSON.parse\<close> and the values it returns\<close>

text \<open>
  \<^verbatim>\<open>JSON.parse\<close> is written out after the JSON grammar of ECMAScript: a lexer, then a
  parser that keeps the open arrays and objects on a stack. A number is kept as the text of
  its literal. An object is the list of its members in the order of the text, a repeated key
  included.
\<close>

datatype json =
    JNull
  | JBool bool
  | JNumber jsstring
  | JString jsstring
  | JArray "json list"
  | JObject "(jsstring \<times> json) list"

datatype token = TLBrace | TRBrace | TLBracket | TRBracket | TColon | TComma | TLit json

definition isJsonSpace :: "code_unit \<Rightarrow> bool" where
  "isJsonSpace c \<longleftrightarrow> c = 0x09 \<or> c = 0x0A \<or> c = 0x0D \<or> c = 0x20"

definition isDigit :: "code_unit \<Rightarrow> bool" where
  "isDigit c \<longleftrightarrow> 0x30 \<le> c \<and> c \<le> 0x39"

definition hexValue :: "code_unit \<Rightarrow> code_unit option" where
  "hexValue c =
     (if 0x30 \<le> c \<and> c \<le> 0x39 then Some (c - 0x30)
      else if 0x41 \<le> c \<and> c \<le> 0x46 then Some (c - 0x41 + 10)
      else if 0x61 \<le> c \<and> c \<le> 0x66 then Some (c - 0x61 + 10)
      else None)"

definition escapeValue :: "code_unit \<Rightarrow> code_unit option" where
  "escapeValue e =
     (if e = 0x22 then Some 0x22
      else if e = 0x5C then Some 0x5C
      else if e = 0x2F then Some 0x2F
      else if e = 0x62 then Some 0x08
      else if e = 0x66 then Some 0x0C
      else if e = 0x6E then Some 0x0A
      else if e = 0x72 then Some 0x0D
      else if e = 0x74 then Some 0x09
      else None)"

definition cons_char :: "code_unit \<Rightarrow> (jsstring \<times> jsstring) option \<Rightarrow> (jsstring \<times> jsstring) option" where
  "cons_char c r = (case r of None \<Rightarrow> None | Some (s, rest) \<Rightarrow> Some (c # s, rest))"

fun lex_string :: "jsstring \<Rightarrow> (jsstring \<times> jsstring) option" where
  "lex_string [] = None"
| "lex_string (c # cs) =
     (if c = 0x22 then Some ([], cs)
      else if c = 0x5C then
        (case cs of
           [] \<Rightarrow> None
         | e # cs' \<Rightarrow>
             if e = 0x75 then
               (case cs' of
                  h1 # h2 # h3 # h4 # cs'' \<Rightarrow>
                    (case (hexValue h1, hexValue h2, hexValue h3, hexValue h4) of
                       (Some a, Some b, Some c, Some d) \<Rightarrow>
                         cons_char (a * 4096 + b * 256 + c * 16 + d) (lex_string cs'')
                     | _ \<Rightarrow> None)
                | _ \<Rightarrow> None)
             else (case escapeValue e of
                     None \<Rightarrow> None
                   | Some x \<Rightarrow> cons_char x (lex_string cs')))
      else if c < 0x20 then None
      else cons_char c (lex_string cs))"

lemma lex_string_shorter:
  "lex_string cs = Some (s, rest) \<Longrightarrow> length rest < length cs"
proof (induction cs arbitrary: s rest rule: length_induct)
  case (1 xs)
  have IH: "lex_string ys = Some (s', rest') \<Longrightarrow> length ys < length xs \<Longrightarrow> length rest' < length ys"
    for ys s' rest'
    using "1.IH" by blast
  show ?case
  proof (cases xs)
    case Nil
    with "1.prems" show ?thesis by simp
  next
    case (Cons c cs)
    with "1.prems" show ?thesis
      by (auto simp: cons_char_def split: if_splits list.splits option.splits dest!: IH)
  qed
qed

definition isNumberChar :: "code_unit \<Rightarrow> bool" where
  \<comment> \<open>the code units a number literal is made of: digits, \<^verbatim>\<open>-\<close>, \<^verbatim>\<open>+\<close>, \<^verbatim>\<open>.\<close>, \<^verbatim>\<open>e\<close>, \<^verbatim>\<open>E\<close>\<close>
  "isNumberChar c \<longleftrightarrow> isDigit c \<or> c = 0x2D \<or> c = 0x2B \<or> c = 0x2E \<or> c = 0x65 \<or> c = 0x45"

definition number_digits :: "jsstring \<Rightarrow> jsstring option" where
  \<comment> \<open>one or more digits; what follows them\<close>
  "number_digits s = (case s of [] \<Rightarrow> None | c # r \<Rightarrow> if isDigit c then Some (dropWhile isDigit r) else None)"

definition number_int :: "jsstring \<Rightarrow> jsstring option" where
  \<comment> \<open>\<^verbatim>\<open>0\<close>, or a digit from 1 to 9 followed by digits\<close>
  "number_int s = (case s of [] \<Rightarrow> None | c # r \<Rightarrow> if c = 0x30 then Some r else number_digits s)"

definition number_frac :: "jsstring \<Rightarrow> jsstring option" where
  "number_frac s = (case s of [] \<Rightarrow> Some [] | c # r \<Rightarrow> if c = 0x2E then number_digits r else Some s)"

definition number_exp :: "jsstring \<Rightarrow> jsstring option" where
  "number_exp s =
     (case s of
        [] \<Rightarrow> Some []
      | c # r \<Rightarrow>
          if c = 0x65 \<or> c = 0x45 then
            (case r of
               [] \<Rightarrow> None
             | sign # r' \<Rightarrow> if sign = 0x2B \<or> sign = 0x2D then number_digits r' else number_digits r)
          else Some s)"

definition validNumber :: "jsstring \<Rightarrow> bool" where
  \<comment> \<open>the JSON number grammar: \<^verbatim>\<open>-? int frac? exp?\<close>\<close>
  "validNumber s =
     (case number_int (case s of [] \<Rightarrow> [] | c # r \<Rightarrow> if c = 0x2D then r else s) of
        None \<Rightarrow> False
      | Some r1 \<Rightarrow>
          (case number_frac r1 of
             None \<Rightarrow> False
           | Some r2 \<Rightarrow> number_exp r2 = Some []))"

definition cons_token :: "token \<Rightarrow> token list option \<Rightarrow> token list option" where
  "cons_token t r = map_option (\<lambda>ts. t # ts) r"

function lex :: "jsstring \<Rightarrow> token list option" where
  "lex [] = Some []"
| "lex (c # cs) =
     (if isJsonSpace c then lex cs
      else if c = 0x7B then cons_token TLBrace (lex cs)
      else if c = 0x7D then cons_token TRBrace (lex cs)
      else if c = 0x5B then cons_token TLBracket (lex cs)
      else if c = 0x5D then cons_token TRBracket (lex cs)
      else if c = 0x3A then cons_token TColon (lex cs)
      else if c = 0x2C then cons_token TComma (lex cs)
      else if c = 0x22 then
        (case lex_string cs of
           None \<Rightarrow> None
         | Some (s, rest) \<Rightarrow> cons_token (TLit (JString s)) (lex rest))
      else if c = 0x2D \<or> isDigit c then
        (let text = c # takeWhile isNumberChar cs
         in if validNumber text
            then cons_token (TLit (JNumber text)) (lex (dropWhile isNumberChar cs))
            else None)
      else if startsWith (c # cs) (js ''true'') then cons_token (TLit (JBool True)) (lex (drop 3 cs))
      else if startsWith (c # cs) (js ''false'') then cons_token (TLit (JBool False)) (lex (drop 4 cs))
      else if startsWith (c # cs) (js ''null'') then cons_token (TLit JNull) (lex (drop 3 cs))
      else None)"
  by pat_completeness auto
termination
proof (relation "measure length")
  fix c :: code_unit and cs x2 s rest
  assume "lex_string cs = Some x2" "(s, rest) = x2"
  then have "length rest < length cs"
    using lex_string_shorter [of cs s rest] by simp
  then show "(rest, c # cs) \<in> measure length" by simp
next
  fix c :: code_unit and cs :: jsstring
  have "length (dropWhile isNumberChar cs) \<le> length cs"
    by (rule length_dropWhile_le)
  then show "(dropWhile isNumberChar cs, c # cs) \<in> measure length" by simp
qed simp_all

datatype frame =
    FArray "json list"
  | FObject "(jsstring \<times> json) list"
  | FMember "(jsstring \<times> json) list" jsstring

datatype mode = Value | FirstElement | FirstKey | Key | Colon | After json

fun begin_value :: "frame list \<Rightarrow> token \<Rightarrow> (frame list \<times> mode) option" where
  "begin_value st (TLit v) = Some (st, After v)"
| "begin_value st TLBracket = Some (FArray [] # st, FirstElement)"
| "begin_value st TLBrace = Some (FObject [] # st, FirstKey)"
| "begin_value st _ = None"

fun step :: "frame list \<times> mode \<Rightarrow> token \<Rightarrow> (frame list \<times> mode) option" where
  "step (st, Value) t = begin_value st t"
| "step (FArray xs # st, FirstElement) TRBracket = Some (st, After (JArray xs))"
| "step (st, FirstElement) t = begin_value st t"
| "step (FObject ms # st, FirstKey) TRBrace = Some (st, After (JObject ms))"
| "step (FObject ms # st, FirstKey) (TLit (JString k)) = Some (FMember ms k # st, Colon)"
| "step (FObject ms # st, Key) (TLit (JString k)) = Some (FMember ms k # st, Colon)"
| "step (st, Colon) TColon = Some (st, Value)"
| "step (FArray xs # st, After v) TComma = Some (FArray (xs @ [v]) # st, Value)"
| "step (FArray xs # st, After v) TRBracket = Some (st, After (JArray (xs @ [v])))"
| "step (FMember ms k # st, After v) TComma = Some (FObject (ms @ [(k, v)]) # st, Key)"
| "step (FMember ms k # st, After v) TRBrace = Some (st, After (JObject (ms @ [(k, v)])))"
| "step _ _ = None"

fun run :: "frame list \<times> mode \<Rightarrow> token list \<Rightarrow> json option" where
  "run s [] = (case s of ([], After v) \<Rightarrow> Some v | _ \<Rightarrow> None)"
| "run s (t # ts) = (case step s t of None \<Rightarrow> None | Some s' \<Rightarrow> run s' ts)"

definition JSON_parse :: "jsstring \<Rightarrow> json option" where
  \<comment> \<open>\<open>None\<close> stands for the SyntaxError that \<^verbatim>\<open>JSON.parse\<close> throws\<close>
  "JSON_parse text = (case lex text of None \<Rightarrow> None | Some ts \<Rightarrow> run ([], Value) ts)"

section \<open>Reading a parsed payload\<close>

datatype js_error =
    SyntaxError
  | TypeError
  | FetchRejected
  | FailedToGetResponse nat jsstring
  | ResponseBodyIsNull
  | ReadRejected

text \<open>
  The value of a JSON number literal is a floating-point number. The program only asks
  whether such a value is zero (truthiness) and for its decimal text (string
  concatenation); both are parameters of the model, given on the literal.
\<close>

record numbers =
  number_isZero :: "jsstring \<Rightarrow> bool"
  number_toString :: "jsstring \<Rightarrow> jsstring"

fun getProp :: "json \<Rightarrow> jsstring \<Rightarrow> js_error + json option" where
  \<comment> \<open>\<^verbatim>\<open>v.k\<close> and \<^verbatim>\<open>v[0]\<close> for the names the program reads (\<^verbatim>\<open>response\<close>, \<^verbatim>\<open>choices\<close>,
      \<^verbatim>\<open>0\<close>, \<^verbatim>\<open>delta\<close>, \<^verbatim>\<open>content\<close>); \<open>None\<close> is \<^verbatim>\<open>undefined\<close>. Of a repeated key
      \<^verbatim>\<open>JSON.parse\<close> keeps the last value.\<close>
  "getProp JNull k = Inl TypeError"
| "getProp (JObject ms) k = Inr (map_of (rev ms) k)"
| "getProp (JArray xs) k =
     Inr (if k = js ''0'' then (case xs of [] \<Rightarrow> None | x # _ \<Rightarrow> Some x) else None)"
| "getProp (JString s) k =
     Inr (if k = js ''0'' then (case s of [] \<Rightarrow> None | c # _ \<Rightarrow> Some (JString [c])) else None)"
| "getProp (JBool b) k = Inr None"
| "getProp (JNumber n) k = Inr None"

definition optGet :: "json option \<Rightarrow> jsstring \<Rightarrow> json option" where
  \<comment> \<open>optional chaining \<^verbatim>\<open>v?.k\<close>\<close>
  "optGet v k =
     (case v of
        None \<Rightarrow> None
      | Some JNull \<Rightarrow> None
      | Some x \<Rightarrow> (case getProp x k of Inl e \<Rightarrow> None | Inr r \<Rightarrow> r))"

fun truthy :: "numbers \<Rightarrow> json \<Rightarrow> bool" where
  "truthy N JNull = False"
| "truthy N (JBool b) = b"
| "truthy N (JNumber n) = (\<not> number_isZero N n)"
| "truthy N (JString s) = (s \<noteq> [])"
| "truthy N (JArray xs) = True"
| "truthy N (JObject ms) = True"

fun toString :: "numbers \<Rightarrow> json \<Rightarrow> js_error + jsstring"
  and toStrings :: "numbers \<Rightarrow> json list \<Rightarrow> js_error + jsstring list" where
  \<comment> \<open>the string that \<^verbatim>\<open>responseText += content\<close> appends; an array is joined with commas,
      \<^verbatim>\<open>null\<close> elements as the empty string; an object whose own \<^verbatim>\<open>toString\<close> key hides
      the inherited method has no primitive value\<close>
  "toString N JNull = Inr (js ''null'')"
| "toString N (JBool b) = Inr (if b then js ''true'' else js ''false'')"
| "toString N (JNumber n) = Inr (number_toString N n)"
| "toString N (JString s) = Inr s"
| "toString N (JArray xs) =
     (case toStrings N xs of Inl e \<Rightarrow> Inl e | Inr ss \<Rightarrow> Inr (join ss (js '','')))"
| "toString N (JObject ms) =
     (if map_of ms (js ''toString'') \<noteq> None then Inl TypeError else Inr (js ''[object Object]''))"
| "toStrings N [] = Inr []"
| "toStrings N (x # xs) =
     (case (if x = JNull then Inr [] else toString N x) of
        Inl e \<Rightarrow> Inl e
      | Inr s \<Rightarrow> (case toStrings N xs of Inl e \<Rightarrow> Inl e | Inr ss \<Rightarrow> Inr (s # ss)))"

section \<open>The stream coordinator: the read loop of \<^verbatim>\<open>sendMessage\<close>\<close>

record stream =
  responseText :: jsstring
  assistantText :: jsstring

definition flushAssistantText :: "stream \<Rightarrow> stream" where
  "flushAssistantText st = st\<lparr>assistantText := responseText st\<rparr>"

definition nestedContent :: "json \<Rightarrow> json option" where
  \<comment> \<open>\<^verbatim>\<open>jsonData.choices?.[0]?.delta?.content\<close>, for \<^verbatim>\<open>jsonData\<close> other than \<^verbatim>\<open>null\<close>\<close>
  "nestedContent jsonData =
     optGet (optGet (optGet (optGet (Some jsonData) (js ''choices'')) (js ''0'')) (js ''delta''))
       (js ''content'')"

definition selectContent :: "numbers \<Rightarrow> json \<Rightarrow> js_error + json" where
  \<comment> \<open>lines 173 to 178: the value of \<^verbatim>\<open>content\<close> after the two branches\<close>
  "selectContent N jsonData =
     (case getProp jsonData (js ''response'') of
        Inl e \<Rightarrow> Inl e
      | Inr response \<Rightarrow>
          (case response of
             Some (JString s) \<Rightarrow>
               if s \<noteq> [] then Inr (JString s)
               else (case nestedContent jsonData of
                       Some c \<Rightarrow> if truthy N c then Inr c else Inr (JString [])
                     | None \<Rightarrow> Inr (JString []))
           | _ \<Rightarrow>
               (case nestedContent jsonData of
                  Some c \<Rightarrow> if truthy N c then Inr c else Inr (JString [])
                | None \<Rightarrow> Inr (JString []))))"

definition appendChunk_try :: "numbers \<Rightarrow> stream \<Rightarrow> jsstring \<Rightarrow> js_error + stream" where
  \<comment> \<open>the \<^verbatim>\<open>try\<close> block of \<^verbatim>\<open>appendChunkFromSseData\<close>, lines 170 to 183\<close>
  "appendChunk_try N st data =
     (case JSON_parse data of
        None \<Rightarrow> Inl SyntaxError
      | Some jsonData \<Rightarrow>
          (case selectContent N jsonData of
             Inl e \<Rightarrow> Inl e
           | Inr content \<Rightarrow>
               if truthy N content then
                 (case toString N content of
                    Inl e \<Rightarrow> Inl e
                  | Inr s \<Rightarrow> Inr (flushAssistantText (st\<lparr>responseText := responseText st @ s\<rparr>)))
               else Inr st))"

definition appendChunkFromSseData :: "numbers \<Rightarrow> stream \<Rightarrow> jsstring \<Rightarrow> stream" where
  \<comment> \<open>the \<^verbatim>\<open>catch\<close> of lines 184 to 187 ignores every error\<close>
  "appendChunkFromSseData N st data =
     (case appendChunk_try N st data of Inl e \<Rightarrow> st | Inr st' \<Rightarrow> st')"

definition DONE :: jsstring where
  "DONE = js ''[DONE]''"

fun finalEvents :: "numbers \<Rightarrow> stream \<Rightarrow> jsstring list \<Rightarrow> stream" where
  \<comment> \<open>the \<^verbatim>\<open>for\<close> loop of lines 143 to 146\<close>
  "finalEvents N st [] = st"
| "finalEvents N st (data # rest) =
     (if data = DONE then st else finalEvents N (appendChunkFromSseData N st data) rest)"

fun chunkEvents :: "numbers \<Rightarrow> stream \<Rightarrow> jsstring list \<Rightarrow> stream \<times> bool" where
  \<comment> \<open>the \<^verbatim>\<open>for\<close> loop of lines 156 to 163; the flag is \<^verbatim>\<open>sawDone\<close>\<close>
  "chunkEvents N st [] = (st, False)"
| "chunkEvents N st (data # rest) =
     (if data = DONE then (st, True) else chunkEvents N (appendChunkFromSseData N st data) rest)"

text \<open>
  A response body is read as the texts that \<^verbatim>\<open>decoder.decode(value, { stream: true })\<close>
  returns for its chunks, in order, followed by how the reader ends: with
  \<^verbatim>\<open>done\<close>, or with a rejected \<^verbatim>\<open>read()\<close>. A body that never ends keeps the loop
  waiting and is not a value of this type.
\<close>

datatype stream_end = EndOfData | ReadFails

record body =
  chunks :: "jsstring list"
  ending :: stream_end

fun readLoop :: "numbers \<Rightarrow> jsstring list \<Rightarrow> stream_end \<Rightarrow> jsstring \<Rightarrow> stream
    \<Rightarrow> stream \<times> js_error option" where
  \<comment> \<open>the \<^verbatim>\<open>while (true)\<close> loop of lines 137 to 166, on the locals \<^verbatim>\<open>buffer\<close> and
      \<^verbatim>\<open>responseText\<close>; the error is the exception that leaves the loop\<close>
  "readLoop N [] EndOfData buf st =
     (finalEvents N st (events (consumeSseEvents (buf @ blankLine))), None)"
| "readLoop N [] ReadFails buf st = (st, Some ReadRejected)"
| "readLoop N (v # vs) e buf st =
     (let parsed = consumeSseEvents (buf @ v);
          (st', sawDone) = chunkEvents N st (events parsed)
      in if sawDone then (st', None) else readLoop N vs e (buffer parsed) st')"

section \<open>The page and \<^verbatim>\<open>sendMessage\<close>\<close>

text \<open>
  The state is the two variables of the module, \<^verbatim>\<open>chatHistory\<close> and \<^verbatim>\<open>isProcessing\<close>, and
  what the program reads and writes of the page: the value of the input, the two
  \<^verbatim>\<open>disabled\<close> flags, the \<^verbatim>\<open>visible\<close> class of the typing indicator and the children
  appended to \<^verbatim>\<open>chat-messages\<close>. An element is either one built by \<^verbatim>\<open>addMessageToChat\<close>
  (its class name and its \<^verbatim>\<open>innerHTML\<close>) or the assistant bubble built by \<^verbatim>\<open>sendMessage\<close>
  (the text of its badge and the \<^verbatim>\<open>textContent\<close> of its paragraph). The requests passed
  to \<^verbatim>\<open>fetch\<close> and the errors passed to \<^verbatim>\<open>console.error\<close> are logged in the state.
  Scrolling, focus and the height of the input are left out, and the calls on the page are
  taken not to throw.

  What the surroundings decide is an argument: what \<^verbatim>\<open>window.getSelectedAgent\<close> is and
  returns, and how \<^verbatim>\<open>fetch\<close> answers. A cycle is one step: while it waits, the input is
  disabled and \<^verbatim>\<open>isProcessing\<close> turns every other call of \<^verbatim>\<open>sendMessage\<close> away.
\<close>

record message =
  role :: jsstring
  content :: jsstring

datatype element =
    MessageEl jsstring jsstring
  | AssistantEl jsstring jsstring

record request =
  agent :: jsstring
  messages :: "message list"

record response =
  status :: nat
  text_of :: "jsstring option"
  body_of :: "body option"

definition ok :: "response \<Rightarrow> bool" where
  \<comment> \<open>\<^verbatim>\<open>response.ok\<close>: the status is in the range 200 to 299\<close>
  "ok r \<longleftrightarrow> 200 \<le> status r \<and> status r \<le> 299"

datatype fetch_result = Rejects | Resolves response

datatype selector = NoSelector | SelectorThrows | SelectorReturns jsstring

record page =
  chatHistory :: "message list"
  isProcessing :: bool
  userInput_value :: jsstring
  userInput_disabled :: bool
  sendButton_disabled :: bool
  typingIndicator_visible :: bool
  chatMessages :: "element list"
  fetched :: "request list"
  console :: "js_error list"

definition greeting :: message where
  "greeting = \<lparr>role = js ''assistant'',
     content = js ''Hello! I'' @ [0x27] @ js ''m an LLM chat app. Choose an agent above and ask me anything.''\<rparr>"

definition initial :: page where
  "initial = \<lparr>chatHistory = [greeting], isProcessing = False, userInput_value = [],
     userInput_disabled = False, sendButton_disabled = False, typingIndicator_visible = False,
     chatMessages = [], fetched = [], console = []\<rparr>"

definition getAgent :: "selector \<Rightarrow> jsstring" where
  "getAgent sel =
     (case sel of
        NoSelector \<Rightarrow> js ''azure''
      | SelectorThrows \<Rightarrow> js ''azure''
      | SelectorReturns a \<Rightarrow> if a = [] then js ''azure'' else a)"

definition escapeHtml :: "jsstring \<Rightarrow> jsstring" where
  "escapeHtml str =
     replace_all 0x27 (js ''&#039;'')
       (replace_all 0x22 (js ''&quot;'')
         (replace_all 0x3E (js ''&gt;'')
           (replace_all 0x3C (js ''&lt;'')
             (replace_all 0x26 (js ''&amp;'') str))))"

definition addMessageToChat :: "jsstring \<Rightarrow> jsstring \<Rightarrow> page \<Rightarrow> page" where
  "addMessageToChat r c s =
     s\<lparr>chatMessages := chatMessages s @
        [MessageEl (js ''message '' @ r @ js ''-message'') (js ''<p>'' @ escapeHtml c @ js ''</p>'')]\<rparr>"

definition errorText :: jsstring where
  "errorText = js ''Sorry, there was an error processing your request.''"

definition sendMessage_try :: "numbers \<Rightarrow> jsstring \<Rightarrow> fetch_result \<Rightarrow> page \<Rightarrow> page \<times> js_error option" where
  \<comment> \<open>the \<^verbatim>\<open>try\<close> block, lines 80 to 193: the page when the block is left, and the
      exception that left it\<close>
  "sendMessage_try N a fr s =
     (let badge = (if a = js ''cf'' then js ''Cloudflare'' else js ''Azure'');
          el = length (chatMessages s);
          s1 = s\<lparr>chatMessages := chatMessages s @ [AssistantEl badge []]\<rparr>;
          s2 = s1\<lparr>fetched := fetched s1 @ [\<lparr>agent = a, messages = chatHistory s1\<rparr>]\<rparr>
      in case fr of
           Rejects \<Rightarrow> (s2, Some FetchRejected)
         | Resolves r \<Rightarrow>
             if \<not> ok r then
               (s2, Some (FailedToGetResponse (status r) (case text_of r of None \<Rightarrow> [] | Some d \<Rightarrow> d)))
             else
               (case body_of r of
                  None \<Rightarrow> (s2, Some ResponseBodyIsNull)
                | Some b \<Rightarrow>
                    (let (st, err) = readLoop N (chunks b) (ending b) []
                                       \<lparr>responseText = [], assistantText = []\<rparr>;
                         s3 = s2\<lparr>chatMessages := (chatMessages s2)[el := AssistantEl badge (assistantText st)]\<rparr>
                     in case err of
                          Some e \<Rightarrow> (s3, Some e)
                        | None \<Rightarrow>
                            (if responseText st \<noteq> []
                             then s3\<lparr>chatHistory := chatHistory s3 @
                                    [\<lparr>role = js ''assistant'', content = responseText st\<rparr>]\<rparr>
                             else s3, None))))"

definition sendMessage :: "numbers \<Rightarrow> selector \<Rightarrow> fetch_result \<Rightarrow> page \<Rightarrow> page" where
  "sendMessage N sel fr s =
     (let message = trim (userInput_value s)
      in if message = [] \<or> isProcessing s then s
         else
           (let a = getAgent sel;
                s1 = s\<lparr>isProcessing := True, userInput_disabled := True, sendButton_disabled := True\<rparr>;
                s2 = addMessageToChat (js ''user'') message s1;
                s3 = s2\<lparr>userInput_value := [], typingIndicator_visible := True\<rparr>;
                s4 = s3\<lparr>chatHistory := chatHistory s3 @ [\<lparr>role = js ''user'', content = message\<rparr>]\<rparr>;
                (s5, err) = sendMessage_try N a fr s4;
                s6 = (case err of
                        None \<Rightarrow> s5
                      | Some e \<Rightarrow> addMessageToChat (js ''assistant'') errorText (s5\<lparr>console := console s5 @ [e]\<rparr>))
            in s6\<lparr>typingIndicator_visible := False, isProcessing := False,
                 userInput_disabled := False, sendButton_disabled := False\<rparr>))"

inductive reachable :: "page \<Rightarrow> bool" where
  \<comment> \<open>the states of the page: the user edits the input, or a call of \<^verbatim>\<open>sendMessage\<close> runs\<close>
  start: "reachable initial"
| typing: "reachable s \<Longrightarrow> reachable (s\<lparr>userInput_value := v\<rparr>)"
| sending: "reachable s \<Longrightarrow> reachable (sendMessage N sel fr s)"

section \<open>Definitions used to state the properties\<close>

definition blockEvents :: "jsstring \<Rightarrow> jsstring list" where
  \<comment> \<open>what one pass of the loop body, lines 240 to 248, adds to \<^verbatim>\<open>events\<close>\<close>
  "blockEvents rawEvent =
     (let dataLines = dataLines_of (split_on rawEvent LF)
      in if dataLines = [] then [] else [join dataLines [LF]])"

fun frameChunks :: "jsstring \<Rightarrow> jsstring list \<Rightarrow> parsed" where
  \<comment> \<open>the buffer handling of lines 151 to 154 over a list of chunks: every chunk is
      appended to the carried remainder, the result is framed, the new remainder is kept\<close>
  "frameChunks buf [] = \<lparr>events = [], buffer = buf\<rparr>"
| "frameChunks buf (v # vs) =
     (let parsed = consumeSseEvents (buf @ v);
          later = frameChunks (buffer parsed) vs
      in \<lparr>events = events parsed @ events later, buffer = buffer later\<rparr>)"

definition htmlEntity :: "code_unit \<Rightarrow> jsstring" where
  \<comment> \<open>the entity that stands for a character, as the specification lists them\<close>
  \<open>htmlEntity c =
     (if c = 0x26 then js ''&amp;''
      else if c = 0x3C then js ''&lt;''
      else if c = 0x3E then js ''&gt;''
      else if c = 0x22 then js ''&quot;''
      else if c = 0x27 then js ''&#039;''
      else [c])\<close>

definition entities :: "jsstring list" where
  \<open>entities = [js ''&amp;'', js ''&lt;'', js ''&gt;'', js ''&quot;'', js ''&#039;'']\<close>

definition exampleNumbers :: numbers where
  \<comment> \<open>one choice of the two parameters, for closed examples that hold no number\<close>
  "exampleNumbers = \<lparr>number_isZero = (\<lambda>n. n = js ''0''), number_toString = (\<lambda>n. n)\<rparr>"

section \<open>Facts about the framer\<close>

declare consumeLoop.simps [simp del]

lemma consumeLoop_None:
  "indexOf n blankLine = None \<Longrightarrow> consumeLoop n evs = \<lparr>events = evs, buffer = n\<rparr>"
  by (subst consumeLoop.simps) simp

lemma consumeLoop_Some:
  "indexOf n blankLine = Some i \<Longrightarrow>
   consumeLoop n evs = consumeLoop (drop (i + 2) n) (evs @ blockEvents (take i n))"
  by (subst consumeLoop.simps) (simp add: blockEvents_def Let_def)

lemma startsWith_append:
  "length pat \<le> length s \<Longrightarrow> startsWith (s @ t) pat = startsWith s pat"
  by (simp add: startsWith_def)

lemma indexOf_append:
  "indexOf s pat = Some i \<Longrightarrow> indexOf (s @ t) pat = Some i"
proof (induction s arbitrary: i)
  case Nil
  then show ?case by (cases t) (simp_all add: startsWith_def split: if_splits)
next
  case (Cons c cs)
  from Cons.prems have len: "length pat \<le> length (c # cs)"
    using indexOf_bound [of "c # cs" pat i] by simp
  show ?case
  proof (cases "startsWith (c # cs) pat")
    case True
    with Cons.prems len show ?thesis
      using startsWith_append [of pat "c # cs" t] by simp
  next
    case False
    with Cons.prems obtain j where j: "indexOf cs pat = Some j" "i = Suc j"
      by auto
    from False len have "\<not> startsWith ((c # cs) @ t) pat"
      using startsWith_append [of pat "c # cs" t] by simp
    with j Cons.IH [of j] show ?thesis by simp
  qed
qed

lemma consumeLoop_append:
  "consumeLoop (a @ b) evs =
     consumeLoop (buffer (consumeLoop a evs) @ b) (events (consumeLoop a evs))"
proof (induction a arbitrary: evs rule: length_induct)
  case (1 a)
  show ?case
  proof (cases "indexOf a blankLine")
    case None
    then show ?thesis by (simp add: consumeLoop_None)
  next
    case (Some i)
    then have len: "i + 2 \<le> length a"
      using indexOf_bound [of a blankLine i] by (simp add: blankLine_def)
    from Some have "indexOf (a @ b) blankLine = Some i"
      by (rule indexOf_append)
    then have "consumeLoop (a @ b) evs =
        consumeLoop (drop (i + 2) a @ b) (evs @ blockEvents (take i a))"
      using len by (simp add: consumeLoop_Some)
    also have "\<dots> = consumeLoop (buffer (consumeLoop (drop (i + 2) a) (evs @ blockEvents (take i a))) @ b)
        (events (consumeLoop (drop (i + 2) a) (evs @ blockEvents (take i a))))"
      using len 1 [rule_format, of "drop (i + 2) a"] by simp
    finally show ?thesis
      using Some by (simp add: consumeLoop_Some)
  qed
qed

lemma consumeLoop_acc:
  "consumeLoop n evs =
     \<lparr>events = evs @ events (consumeLoop n []), buffer = buffer (consumeLoop n [])\<rparr>"
proof (induction n arbitrary: evs rule: length_induct)
  case (1 n)
  show ?case
  proof (cases "indexOf n blankLine")
    case None
    then show ?thesis by (simp add: consumeLoop_None)
  next
    case (Some i)
    then have len: "i + 2 \<le> length n"
      using indexOf_bound [of n blankLine i] by (simp add: blankLine_def)
    then have less: "length (drop (i + 2) n) < length n" by simp
    show ?thesis
      using 1 [rule_format, OF less, of "evs @ blockEvents (take i n)"]
        1 [rule_format, OF less, of "blockEvents (take i n)"] Some
      by (simp add: consumeLoop_Some)
  qed
qed

lemma consumeLoop_buffer_subset:
  "set (buffer (consumeLoop n evs)) \<subseteq> set n"
proof (induction n arbitrary: evs rule: length_induct)
  case (1 n)
  show ?case
  proof (cases "indexOf n blankLine")
    case None
    then show ?thesis by (simp add: consumeLoop_None)
  next
    case (Some i)
    then have len: "i + 2 \<le> length n"
      using indexOf_bound [of n blankLine i] by (simp add: blankLine_def)
    then have less: "length (drop (i + 2) n) < length n" by simp
    have "set (drop (i + 2) n) \<subseteq> set n" by (rule set_drop_subset)
    with 1 [rule_format, OF less, of "evs @ blockEvents (take i n)"] Some
    show ?thesis
      by (auto simp add: consumeLoop_Some)
  qed
qed

lemma replace_all_empty: "replace_all c [] s = filter (\<lambda>x. x \<noteq> c) s"
  by (induction s) (simp_all add: replace_all_def)

lemma consume_buffer_normal:
  "replace_all CR [] (buffer (consumeSseEvents buf)) = buffer (consumeSseEvents buf)"
proof -
  have "set (buffer (consumeSseEvents buf)) \<subseteq> set (replace_all CR [] buf)"
    unfolding consumeSseEvents_def by (rule consumeLoop_buffer_subset)
  then have "CR \<notin> set (buffer (consumeSseEvents buf))"
    by (auto simp: replace_all_empty)
  then show ?thesis
    by (auto simp add: replace_all_empty filter_id_conv)
qed

lemma consumeSseEvents_append:
  "consumeSseEvents (a @ b) =
     \<lparr>events = events (consumeSseEvents a) @ events (consumeSseEvents (buffer (consumeSseEvents a) @ b)),
      buffer = buffer (consumeSseEvents (buffer (consumeSseEvents a) @ b))\<rparr>"
proof -
  let ?r = "consumeSseEvents a"
  have "consumeSseEvents (a @ b) = consumeLoop (replace_all CR [] a @ replace_all CR [] b) []"
    by (simp add: consumeSseEvents_def replace_all_empty)
  also have "\<dots> = consumeLoop (buffer ?r @ replace_all CR [] b) (events ?r)"
    by (simp add: consumeLoop_append [of "replace_all CR [] a"] consumeSseEvents_def)
  also have "\<dots> = consumeLoop (replace_all CR [] (buffer ?r @ b)) (events ?r)"
    using consume_buffer_normal [of a] by (simp add: replace_all_empty)
  also have "\<dots> = \<lparr>events = events ?r @ events (consumeSseEvents (buffer ?r @ b)),
      buffer = buffer (consumeSseEvents (buffer ?r @ b))\<rparr>"
    by (subst consumeLoop_acc) (simp add: consumeSseEvents_def)
  finally show ?thesis .
qed

lemma split_on_no_sep: "sep \<notin> set l \<Longrightarrow> split_on l sep = [l]"
  by (induction l) auto

lemma split_on_append_sep:
  "sep \<notin> set l \<Longrightarrow> split_on (l @ sep # rest) sep = l # split_on rest sep"
  by (induction l) auto

lemma split_on_join:
  "lines \<noteq> [] \<Longrightarrow> \<forall>l\<in>set lines. sep \<notin> set l \<Longrightarrow> split_on (join lines [sep]) sep = lines"
  by (induction lines "[sep]" rule: join.induct) (simp_all add: split_on_no_sep split_on_append_sep)

lemma dataLines_of_filter:
  "dataLines_of ls =
     map (\<lambda>l. trimStart (drop (length dataPrefix) l)) (filter (\<lambda>l. startsWith l dataPrefix) ls)"
  by (induction ls) simp_all

lemma indexOf_blank_after:
  "indexOf s blankLine = None \<Longrightarrow> s = [] \<or> last s \<noteq> LF \<Longrightarrow>
   indexOf (s @ blankLine @ rest) blankLine = Some (length s)"
proof (induction s)
  case Nil
  then show ?case by (simp add: blankLine_def startsWith_def)
next
  case (Cons c cs)
  from Cons.prems(1) have ns: "\<not> startsWith (c # cs) blankLine" and none: "indexOf cs blankLine = None"
    by (auto split: if_splits)
  have "\<not> startsWith ((c # cs) @ blankLine @ rest) blankLine"
  proof (cases cs)
    case Nil
    with Cons.prems(2) show ?thesis by (simp add: startsWith_def blankLine_def)
  next
    case (Cons d ds)
    with ns show ?thesis by (simp add: startsWith_def blankLine_def)
  qed
  moreover have "cs = [] \<or> last cs \<noteq> LF"
    using Cons.prems(2) by (auto split: if_splits)
  ultimately show ?case
    using Cons.IH none by simp
qed

lemma indexOf_line_then:
  "LF \<notin> set x \<Longrightarrow> r \<noteq> [] \<Longrightarrow> hd r \<noteq> LF \<Longrightarrow> indexOf r blankLine = None \<Longrightarrow>
   indexOf (x @ LF # r) blankLine = None"
  by (induction x) (auto simp: startsWith_def blankLine_def neq_Nil_conv)

lemma indexOf_line: "LF \<notin> set x \<Longrightarrow> indexOf x blankLine = None"
  by (induction x) (auto simp: startsWith_def blankLine_def neq_Nil_conv split: list.splits)

lemma join_lines_shape:
  "lines \<noteq> [] \<Longrightarrow> \<forall>l\<in>set lines. l \<noteq> [] \<and> LF \<notin> set l \<Longrightarrow>
   indexOf (join lines [LF]) blankLine = None \<and> join lines [LF] \<noteq> [] \<and>
   hd (join lines [LF]) \<noteq> LF \<and> last (join lines [LF]) \<noteq> LF"
proof (induction lines "[LF]" rule: join.induct)
  case 1
  then show ?case by simp
next
  case (2 x)
  then show ?case
    by (simp add: indexOf_line) (metis hd_in_set last_in_set)
next
  case (3 x y ys)
  then have x: "x \<noteq> []" "LF \<notin> set x" and
    r: "indexOf (join (y # ys) [LF]) blankLine = None" "join (y # ys) [LF] \<noteq> []"
      "hd (join (y # ys) [LF]) \<noteq> LF" "last (join (y # ys) [LF]) \<noteq> LF"
    by simp_all
  from x have "hd x \<noteq> LF" by (metis hd_in_set)
  with x r show ?case
    by (simp add: indexOf_line_then)
qed

lemma consumeSseEvents_Nil: "consumeSseEvents [] = \<lparr>events = [], buffer = []\<rparr>"
  by (simp add: consumeSseEvents_def replace_all_def consumeLoop_None blankLine_def)

lemma consumeLoop_buffer_inert:
  "indexOf (buffer (consumeLoop n evs)) blankLine = None"
proof (induction n arbitrary: evs rule: length_induct)
  case (1 n)
  show ?case
  proof (cases "indexOf n blankLine")
    case None
    then show ?thesis by (simp add: consumeLoop_None)
  next
    case (Some i)
    then have "i + 2 \<le> length n"
      using indexOf_bound [of n blankLine i] by (simp add: blankLine_def)
    then have less: "length (drop (i + 2) n) < length n" by simp
    show ?thesis
      using 1 [rule_format, OF less] Some by (simp add: consumeLoop_Some)
  qed
qed

lemma consume_remainder:
  "consumeSseEvents (buffer (consumeSseEvents buf)) =
     \<lparr>events = [], buffer = buffer (consumeSseEvents buf)\<rparr>"
proof -
  let ?r = "buffer (consumeSseEvents buf)"
  have none: "indexOf ?r blankLine = None"
    unfolding consumeSseEvents_def by (rule consumeLoop_buffer_inert)
  have "consumeSseEvents ?r = consumeLoop (replace_all CR [] ?r) []"
    by (rule consumeSseEvents_def)
  also have "\<dots> = consumeLoop ?r []"
    by (simp only: consume_buffer_normal)
  also have "\<dots> = \<lparr>events = [], buffer = ?r\<rparr>"
    using none by (rule consumeLoop_None)
  finally show ?thesis .
qed

lemma frameChunks_after:
  "\<lparr>events = events (consumeSseEvents a) @ events (frameChunks (buffer (consumeSseEvents a)) vs),
     buffer = buffer (frameChunks (buffer (consumeSseEvents a)) vs)\<rparr> =
   consumeSseEvents (a @ concat vs)"
proof (induction vs arbitrary: a)
  case Nil
  then show ?case by simp
next
  case (Cons v vs)
  have "consumeSseEvents (a @ concat (v # vs)) = consumeSseEvents ((a @ v) @ concat vs)"
    by simp
  also have "\<dots> = \<lparr>events = events (consumeSseEvents (a @ v)) @
        events (frameChunks (buffer (consumeSseEvents (a @ v))) vs),
      buffer = buffer (frameChunks (buffer (consumeSseEvents (a @ v))) vs)\<rparr>"
    by (rule Cons.IH [symmetric])
  finally show ?case
    by (simp add: Let_def consumeSseEvents_append [of a v])
qed

lemma consumeLoop_block:
  assumes "indexOf block blankLine = None" and "block = [] \<or> last block \<noteq> LF"
  shows "consumeLoop (block @ blankLine @ rest) evs = consumeLoop rest (evs @ blockEvents block)"
proof -
  have "indexOf (block @ blankLine @ rest) blankLine = Some (length block)"
    using assms by (rule indexOf_blank_after)
  then show ?thesis
    by (simp add: consumeLoop_Some blankLine_def)
qed

lemma replace_all_id: "c \<notin> set s \<Longrightarrow> replace_all c r s = s"
  by (induction s) (auto simp add: replace_all_def)

lemma replace_all_append: "replace_all c r (s @ t) = replace_all c r s @ replace_all c r t"
  by (simp add: replace_all_def)

lemma join_lines_no_CR:
  "\<forall>l\<in>set lines. CR \<notin> set l \<Longrightarrow> CR \<notin> set (join lines [LF])"
  by (induction lines "[LF]" rule: join.induct) simp_all

lemma consume_block:
  assumes "lines \<noteq> []" and "\<forall>l\<in>set lines. l \<noteq> [] \<and> LF \<notin> set l \<and> CR \<notin> set l"
  shows "consumeSseEvents (join lines [LF] @ blankLine @ rest) =
     \<lparr>events = blockEvents (join lines [LF]) @ events (consumeSseEvents rest),
      buffer = buffer (consumeSseEvents rest)\<rparr>"
proof -
  let ?block = "join lines [LF]"
  from assms have shape: "indexOf ?block blankLine = None" "?block = [] \<or> last ?block \<noteq> LF"
    using join_lines_shape [of lines] by simp_all
  from assms have "CR \<notin> set ?block"
    by (simp add: join_lines_no_CR)
  then have "replace_all CR [] (?block @ blankLine @ rest) = ?block @ blankLine @ replace_all CR [] rest"
    by (simp add: replace_all_append replace_all_id [of CR blankLine] replace_all_id [of CR "join lines [LF]"])
      (simp add: blankLine_def replace_all_def)
  then have "consumeSseEvents (?block @ blankLine @ rest) =
      consumeLoop (replace_all CR [] rest) ([] @ blockEvents ?block)"
    using consumeLoop_block [OF shape] by (simp add: consumeSseEvents_def)
  then show ?thesis
    by (subst (asm) consumeLoop_acc) (simp add: consumeSseEvents_def)
qed

lemma blockEvents_join:
  assumes "lines \<noteq> []" and "\<forall>l\<in>set lines. LF \<notin> set l"
  shows "blockEvents (join lines [LF]) =
     (if \<exists>l\<in>set lines. startsWith l dataPrefix
      then [join (map (\<lambda>l. trimStart (drop (length dataPrefix) l))
                   (filter (\<lambda>l. startsWith l dataPrefix) lines)) [LF]]
      else [])"
  using assms
  by (auto simp add: blockEvents_def split_on_join dataLines_of_filter filter_empty_conv)

lemma trimStart_strip:
  "\<forall>c\<in>set ws. isWhiteSpace c \<Longrightarrow> p = [] \<or> \<not> isWhiteSpace (hd p) \<Longrightarrow> trimStart (ws @ p) = p"
  by (induction ws) (auto simp: trimStart_def dropWhile_eq_self_iff)

lemma startsWith_prefix: "startsWith (pat @ s) pat"
  by (simp add: startsWith_def)

lemma dataPrefix_chars: "LF \<notin> set dataPrefix" "CR \<notin> set dataPrefix" "dataPrefix \<noteq> []"
  by (simp_all add: dataPrefix_def js_def)

lemma dataLines_of_items:
  assumes "\<forall>(ws, p)\<in>set items. (\<forall>c\<in>set ws. isWhiteSpace c) \<and> (p = [] \<or> \<not> isWhiteSpace (hd p))"
  shows "dataLines_of (map (\<lambda>(ws, p). dataPrefix @ ws @ p) items) = map snd items"
  using assms
proof (induction items)
  case Nil
  then show ?case by simp
next
  case (Cons it items)
  obtain ws p where it: "it = (ws, p)" by (cases it)
  with Cons.prems have "trimStart (ws @ p) = p"
    by (simp add: trimStart_strip)
  with it Cons show ?case
    by (simp add: startsWith_prefix)
qed

lemma finalEvents_foldl:
  "finalEvents N st evs = foldl (appendChunkFromSseData N) st (takeWhile (\<lambda>d. d \<noteq> DONE) evs)"
  by (induction evs arbitrary: st) simp_all

lemma chunkEvents_eq:
  "chunkEvents N st evs = (finalEvents N st evs, DONE \<in> set evs)"
  by (induction evs arbitrary: st) auto

lemma finalEvents_append:
  "finalEvents N st (a @ b) =
     (if DONE \<in> set a then finalEvents N st a else finalEvents N (finalEvents N st a) b)"
  by (induction a arbitrary: st) auto

lemma readLoop_Cons:
  "readLoop N (v # vs) e r st =
     (if DONE \<in> set (events (consumeSseEvents (r @ v)))
      then (finalEvents N st (events (consumeSseEvents (r @ v))), None)
      else readLoop N vs e (buffer (consumeSseEvents (r @ v)))
             (finalEvents N st (events (consumeSseEvents (r @ v)))))"
  by (simp add: Let_def chunkEvents_eq)

lemma readLoop_prefix:
  assumes "consumeSseEvents r = \<lparr>events = [], buffer = r\<rparr>"
  shows "readLoop N (vs @ later) e r st =
     (if DONE \<in> set (events (consumeSseEvents (r @ concat vs)))
      then (finalEvents N st (events (consumeSseEvents (r @ concat vs))), None)
      else readLoop N later e (buffer (consumeSseEvents (r @ concat vs)))
             (finalEvents N st (events (consumeSseEvents (r @ concat vs)))))"
  using assms
proof (induction vs arbitrary: r st)
  case Nil
  then show ?case by simp
next
  case (Cons v vs)
  let ?q = "consumeSseEvents (r @ v)"
  let ?p' = "consumeSseEvents (buffer ?q @ concat vs)"
  have split: "consumeSseEvents (r @ v @ concat vs) =
      \<lparr>events = events ?q @ events ?p', buffer = buffer ?p'\<rparr>"
    using consumeSseEvents_append [of "r @ v" "concat vs"] by simp
  have inert: "consumeSseEvents (buffer ?q) = \<lparr>events = [], buffer = buffer ?q\<rparr>"
    by (rule consume_remainder)
  show ?case
  proof (cases "DONE \<in> set (events ?q)")
    case True
    then show ?thesis
      by (simp add: readLoop_Cons split finalEvents_append del: readLoop.simps)
  next
    case False
    then have "readLoop N ((v # vs) @ later) e r st =
        readLoop N (vs @ later) e (buffer ?q) (finalEvents N st (events ?q))"
      by (simp add: readLoop_Cons del: readLoop.simps)
    then show ?thesis
      using False Cons.IH [OF inert, of "finalEvents N st (events ?q)"]
      by (simp add: split finalEvents_append del: readLoop.simps)
  qed
qed

lemma readLoop_EndOfData:
  assumes "consumeSseEvents r = \<lparr>events = [], buffer = r\<rparr>"
  shows "readLoop N vs EndOfData r st =
     (finalEvents N st (events (consumeSseEvents (r @ concat vs @ blankLine))), None)"
proof -
  let ?p = "consumeSseEvents (r @ concat vs)"
  have split: "consumeSseEvents (r @ concat vs @ blankLine) =
      \<lparr>events = events ?p @ events (consumeSseEvents (buffer ?p @ blankLine)),
       buffer = buffer (consumeSseEvents (buffer ?p @ blankLine))\<rparr>"
    using consumeSseEvents_append [of "r @ concat vs" blankLine] by simp
  show ?thesis
    using readLoop_prefix [OF assms, of N vs "[]" EndOfData st]
    by (simp add: split finalEvents_append)
qed

lemma append_direct:
  assumes "JSON_parse data = Some j" and "getProp j (js ''response'') = Inr (Some (JString s))" and "s \<noteq> []"
  shows "appendChunkFromSseData N st data =
     \<lparr>responseText = responseText st @ s, assistantText = responseText st @ s\<rparr>"
  using assms
  by (simp add: appendChunkFromSseData_def appendChunk_try_def selectContent_def flushAssistantText_def)

lemma selectContent_fallback:
  assumes "getProp j (js ''response'') = Inr r" and "\<forall>t. r = Some (JString t) \<longrightarrow> t = []"
  shows "selectContent N j =
     (case nestedContent j of
        Some c \<Rightarrow> if truthy N c then Inr c else Inr (JString [])
      | None \<Rightarrow> Inr (JString []))"
  using assms
  by (auto simp add: selectContent_def split: option.splits json.splits)

lemma append_nested:
  assumes "JSON_parse data = Some j" and "getProp j (js ''response'') = Inr r"
    and "\<forall>t. r = Some (JString t) \<longrightarrow> t = []"
    and "nestedContent j = Some (JString s)" and "s \<noteq> []"
  shows "appendChunkFromSseData N st data =
     \<lparr>responseText = responseText st @ s, assistantText = responseText st @ s\<rparr>"
  using assms(1,4,5) selectContent_fallback [OF assms(2,3), of N]
  by (simp add: appendChunkFromSseData_def appendChunk_try_def flushAssistantText_def)

lemma append_neither:
  assumes "JSON_parse data = Some j" and "getProp j (js ''response'') = Inr r"
    and "\<forall>t. r = Some (JString t) \<longrightarrow> t = []"
    and "nestedContent j = None \<or> (\<exists>c. nestedContent j = Some c \<and> \<not> truthy N c)"
  shows "appendChunkFromSseData N st data = st"
  using assms(1,4) selectContent_fallback [OF assms(2,3), of N]
  by (auto simp add: appendChunkFromSseData_def appendChunk_try_def)

lemma append_invalid:
  "JSON_parse data = None \<Longrightarrow> appendChunkFromSseData N st data = st"
  by (simp add: appendChunkFromSseData_def appendChunk_try_def)

lemma append_error:
  "appendChunk_try N st data = Inl e \<Longrightarrow> appendChunkFromSseData N st data = st"
  by (simp add: appendChunkFromSseData_def)

lemma readLoop_no_error:
  "snd (readLoop N vs EndOfData buf st) = None"
  by (induction vs arbitrary: buf st) (simp_all add: Let_def split: prod.splits)

lemma indexOf_prefix_None: "indexOf (a @ b) pat = None \<Longrightarrow> indexOf a pat = None"
  using indexOf_append [of a pat _ b] by (cases "indexOf a pat") auto

lemma indexOf_contains: "indexOf (a @ blankLine @ b) blankLine \<noteq> None"
  by (induction a) (auto simp: blankLine_def startsWith_def)

lemma consumeLoop_after_blank:
  assumes "indexOf r blankLine = None"
  shows "buffer (consumeLoop (r @ blankLine) evs) = [] \<or> buffer (consumeLoop (r @ blankLine) evs) = [LF]"
proof (cases "r = [] \<or> last r \<noteq> LF")
  case True
  with assms have "consumeLoop (r @ blankLine @ []) evs = consumeLoop [] (evs @ blockEvents r)"
    by (rule consumeLoop_block)
  then show ?thesis
    by (simp add: consumeLoop_None blankLine_def)
next
  case False
  then have r: "r = butlast r @ [LF]"
    by (metis append_butlast_last_id)
  let ?r' = "butlast r"
  from assms r have none: "indexOf ?r' blankLine = None"
    by (metis indexOf_prefix_None)
  have shape: "?r' = [] \<or> last ?r' \<noteq> LF"
  proof (rule ccontr)
    assume "\<not> (?r' = [] \<or> last ?r' \<noteq> LF)"
    then have "?r' = butlast ?r' @ [LF]"
      by (metis append_butlast_last_id)
    with r have "r = butlast ?r' @ blankLine @ []"
      by (metis append_Cons append_Nil append_assoc blankLine_def append_Nil2)
    with assms indexOf_contains [of "butlast ?r'" "[]"] show False
      by simp
  qed
  have "r @ blankLine = ?r' @ blankLine @ [LF]"
    by (subst r) (simp add: blankLine_def)
  then have "consumeLoop (r @ blankLine) evs = consumeLoop [LF] (evs @ blockEvents ?r')"
    using consumeLoop_block [OF none shape, of "[LF]" evs] by simp
  then show ?thesis
    by (simp add: consumeLoop_None blankLine_def startsWith_def)
qed

lemma remainder_after_blank:
  "buffer (consumeSseEvents (x @ blankLine)) = [] \<or> buffer (consumeSseEvents (x @ blankLine)) = [LF]"
proof -
  let ?r = "buffer (consumeLoop (replace_all CR [] x) [])"
  have none: "indexOf ?r blankLine = None"
    by (rule consumeLoop_buffer_inert)
  have "consumeSseEvents (x @ blankLine) = consumeLoop (replace_all CR [] x @ blankLine) []"
    by (simp add: consumeSseEvents_def replace_all_append) (simp add: replace_all_def blankLine_def)
  then have "buffer (consumeSseEvents (x @ blankLine)) =
      buffer (consumeLoop (?r @ blankLine) (events (consumeLoop (replace_all CR [] x) [])))"
    by (simp add: consumeLoop_append [of "replace_all CR [] x"])
  with consumeLoop_after_blank [OF none] show ?thesis
    by simp
qed

lemma flush_of_blank: "events (consumeSseEvents ([] @ blankLine)) = []"
  "events (consumeSseEvents ([LF] @ blankLine)) = []"
  by code_simp+

lemma tail_no_events:
  "events (consumeSseEvents (buffer (consumeSseEvents (x @ blankLine)) @ blankLine)) = []"
  using remainder_after_blank [of x] flush_of_blank by presburger

lemma consume_data_line:
  assumes "\<forall>c\<in>set ws. isWhiteSpace c \<and> c \<noteq> LF \<and> c \<noteq> CR"
    and "p = [] \<or> \<not> isWhiteSpace (hd p)" and "LF \<notin> set p" and "CR \<notin> set p"
  shows "consumeSseEvents ((dataPrefix @ ws @ p) @ blankLine) = \<lparr>events = [p], buffer = []\<rparr>"
proof -
  let ?lines = "[dataPrefix @ ws @ p]"
  from assms have ok: "\<forall>l\<in>set ?lines. l \<noteq> [] \<and> LF \<notin> set l \<and> CR \<notin> set l"
    using dataPrefix_chars by auto
  from assms have "trimStart (ws @ p) = p"
    by (simp add: trimStart_strip)
  then have "blockEvents (dataPrefix @ ws @ p) = [p]"
    using ok by (simp add: blockEvents_def split_on_no_sep startsWith_prefix)
  with consume_block [OF _ ok, of "[]"] show ?thesis
    by (simp add: consumeSseEvents_Nil)
qed

lemma sendMessage_try_failure:
  assumes "\<not> ok r \<or> body_of r = None"
  shows "\<exists>e. sendMessage_try N a (Resolves r) s =
     (s\<lparr>chatMessages := chatMessages s @ [AssistantEl (if a = js ''cf'' then js ''Cloudflare'' else js ''Azure'') []],
        fetched := fetched s @ [\<lparr>agent = a, messages = chatHistory s\<rparr>]\<rparr>, Some e)"
  using assms by (auto simp add: sendMessage_try_def Let_def)

lemma escapeHtml_errorText:
  "escapeHtml errorText = errorText"
  by (simp add: escapeHtml_def errorText_def replace_all_def js_def)

lemma user_class: "js ''message '' @ js ''user'' @ js ''-message'' = js ''message user-message''"
  "js ''message '' @ js ''assistant'' @ js ''-message'' = js ''message assistant-message''"
  by (simp_all add: js_def)

lemma sendMessage_try_clean:
  assumes "ok r" and "body_of r = Some b"
    and "readLoop N (chunks b) (ending b) [] \<lparr>responseText = [], assistantText = []\<rparr> = (st, None)"
  shows "chatHistory (fst (sendMessage_try N a (Resolves r) s)) =
       chatHistory s @ (if responseText st \<noteq> [] then [\<lparr>role = js ''assistant'', content = responseText st\<rparr>] else [])"
    and "snd (sendMessage_try N a (Resolves r) s) = None"
  using assms by (simp_all add: sendMessage_try_def Let_def)

lemma sendMessage_try_history:
  "\<exists>xs. chatHistory (fst (sendMessage_try N a fr s)) = chatHistory s @ xs"
  by (simp add: sendMessage_try_def Let_def split: fetch_result.splits option.splits prod.splits)

lemma sendMessage_try_fetched:
  "fetched (fst (sendMessage_try N a fr s)) = fetched s @ [\<lparr>agent = a, messages = chatHistory s\<rparr>]"
  by (simp add: sendMessage_try_def Let_def split: fetch_result.splits option.splits prod.splits)

lemma sendMessage_history:
  "\<exists>xs. chatHistory (sendMessage N sel fr s) = chatHistory s @ xs"
proof (cases "trim (userInput_value s) = [] \<or> isProcessing s")
  case True
  then show ?thesis by (auto simp add: sendMessage_def Let_def)
next
  case False
  let ?s4 = "(addMessageToChat (js ''user'') (trim (userInput_value s))
       (s\<lparr>isProcessing := True, userInput_disabled := True, sendButton_disabled := True\<rparr>))
       \<lparr>userInput_value := [], typingIndicator_visible := True,
        chatHistory := chatHistory s @ [\<lparr>role = js ''user'', content = trim (userInput_value s)\<rparr>]\<rparr>"
  obtain s5 err where tr: "sendMessage_try N (getAgent sel) fr ?s4 = (s5, err)"
    by (cases "sendMessage_try N (getAgent sel) fr ?s4")
  with sendMessage_try_history [of N "getAgent sel" fr ?s4]
  obtain xs where "chatHistory s5 = chatHistory ?s4 @ xs"
    by auto
  with False tr show ?thesis
    by (simp add: sendMessage_def Let_def addMessageToChat_def split: option.splits)
qed

lemma sendMessage_fetched:
  "fetched (sendMessage N sel fr s) = fetched s \<or>
   (\<exists>a u. fetched (sendMessage N sel fr s) = fetched s @ [\<lparr>agent = a, messages = chatHistory s @ [u]\<rparr>])"
proof (cases "trim (userInput_value s) = [] \<or> isProcessing s")
  case True
  then show ?thesis by (auto simp add: sendMessage_def Let_def)
next
  case False
  let ?s4 = "(addMessageToChat (js ''user'') (trim (userInput_value s))
       (s\<lparr>isProcessing := True, userInput_disabled := True, sendButton_disabled := True\<rparr>))
       \<lparr>userInput_value := [], typingIndicator_visible := True,
        chatHistory := chatHistory s @ [\<lparr>role = js ''user'', content = trim (userInput_value s)\<rparr>]\<rparr>"
  obtain s5 err where tr: "sendMessage_try N (getAgent sel) fr ?s4 = (s5, err)"
    by (cases "sendMessage_try N (getAgent sel) fr ?s4")
  with sendMessage_try_fetched [of N "getAgent sel" fr ?s4]
  have "fetched s5 = fetched ?s4 @ [\<lparr>agent = getAgent sel, messages = chatHistory ?s4\<rparr>]"
    by simp
  with False tr show ?thesis
    by (simp add: sendMessage_def Let_def addMessageToChat_def split: option.splits)
qed

lemma reachable_invariant:
  "reachable s \<Longrightarrow>
   chatHistory s \<noteq> [] \<and> hd (chatHistory s) = greeting \<and>
   (\<forall>q\<in>set (fetched s). messages q \<noteq> [] \<and> hd (messages q) = greeting)"
proof (induction rule: reachable.induct)
  case start
  then show ?case by (simp add: initial_def)
next
  case (typing s v)
  then show ?case by simp
next
  case (sending s N sel fr)
  obtain xs where h: "chatHistory (sendMessage N sel fr s) = chatHistory s @ xs"
    using sendMessage_history by blast
  from sendMessage_fetched [of N sel fr s] sending.IH h show ?case
    by auto
qed

lemma replace_all_concat:
  "replace_all c r (concat xss) = concat (map (replace_all c r) xss)"
  by (induction xss) (simp_all add: replace_all_def)

lemma escape_one:
  "replace_all 0x27 (js ''&#039;'')
     (replace_all 0x22 (js ''&quot;'')
       (replace_all 0x3E (js ''&gt;'')
         (replace_all 0x3C (js ''&lt;'')
           (if x = 0x26 then js ''&amp;'' else [x])))) = htmlEntity x"
  by (simp add: replace_all_def htmlEntity_def js_def)

lemma escapeHtml_concat: "escapeHtml s = concat (map htmlEntity s)"
proof -
  have "escapeHtml s = concat (map (\<lambda>x.
      replace_all 0x27 (js ''&#039;'')
       (replace_all 0x22 (js ''&quot;'')
         (replace_all 0x3E (js ''&gt;'')
           (replace_all 0x3C (js ''&lt;'')
             (if x = 0x26 then js ''&amp;'' else [x]))))) s)"
    unfolding escapeHtml_def
    by (subst replace_all_def [of "0x26"]) (simp only: replace_all_concat map_map comp_def)
  then show ?thesis
    by (simp only: escape_one)
qed

lemma htmlEntity_chars:
  "0x3C \<notin> set (htmlEntity x)" "0x3E \<notin> set (htmlEntity x)"
  "0x22 \<notin> set (htmlEntity x)" "0x27 \<notin> set (htmlEntity x)"
  by (simp_all add: htmlEntity_def js_def)

lemma htmlEntity_amp:
  assumes "i < length (htmlEntity x)" and "htmlEntity x ! i = 0x26"
  shows "i = 0 \<and> htmlEntity x \<in> set entities"
proof -
  have tail: "0x26 \<notin> set (tl (htmlEntity x))"
    by (simp add: htmlEntity_def js_def)
  have zero: "i = 0"
  proof (rule ccontr)
    assume "i \<noteq> 0"
    with assms(1) have "tl (htmlEntity x) ! (i - 1) = htmlEntity x ! i" "i - 1 < length (tl (htmlEntity x))"
      by (simp_all add: nth_tl)
    with assms(2) tail show False
      by (metis nth_mem)
  qed
  with assms(2) have "htmlEntity x \<in> set entities"
    by (simp add: htmlEntity_def entities_def split: if_splits)
  with zero show ?thesis ..
qed

lemma concat_entities_amp:
  assumes "i < length (concat (map htmlEntity s))" and "concat (map htmlEntity s) ! i = 0x26"
  shows "\<exists>e\<in>set entities. startsWith (drop i (concat (map htmlEntity s))) e"
  using assms
proof (induction s arbitrary: i)
  case Nil
  then show ?case by simp
next
  case (Cons x s)
  let ?h = "htmlEntity x" and ?E = "concat (map htmlEntity s)"
  show ?case
  proof (cases "i < length ?h")
    case True
    with Cons.prems have "?h ! i = 0x26"
      by (simp add: nth_append)
    with True have "i = 0" "?h \<in> set entities"
      using htmlEntity_amp [of i x] by simp_all
    then show ?thesis
      by (auto simp add: startsWith_def intro!: bexI [of _ ?h])
  next
    case False
    with Cons.prems have "i - length ?h < length ?E" "?E ! (i - length ?h) = 0x26"
      by (simp_all add: nth_append)
    then have "\<exists>e\<in>set entities. startsWith (drop (i - length ?h) ?E) e"
      by (rule Cons.IH)
    with False show ?thesis
      by simp
  qed
qed

lemma keys_distinct:
  "js ''response'' \<noteq> js ''0''" "js ''choices'' \<noteq> js ''0''"
  "js ''delta'' \<noteq> js ''0''" "js ''content'' \<noteq> js ''0''"
  by (simp_all add: js_def)

lemma inner_object:
  "optGet (optGet (Some (JObject cs)) (js ''delta'')) (js ''content'') =
     (case map_of (rev cs) (js ''delta'') of
        Some (JObject ds) \<Rightarrow> map_of (rev ds) (js ''content'')
      | _ \<Rightarrow> None)"
  by (simp add: optGet_def keys_distinct split: option.splits json.splits list.splits)

lemma inner_not_object:
  "\<forall>cs. c0 \<noteq> JObject cs \<Longrightarrow> optGet (optGet (Some c0) (js ''delta'')) (js ''content'') = None"
  by (cases c0) (simp_all add: optGet_def keys_distinct split: list.splits)

lemma inner_None: "optGet (optGet None (js ''delta'')) (js ''content'') = None"
  by (simp add: optGet_def)

lemma nestedContent_object:
  "nestedContent (JObject ms) =
     optGet (optGet (optGet (map_of (rev ms) (js ''choices'')) (js ''0'')) (js ''delta'')) (js ''content'')"
  by (simp add: nestedContent_def optGet_def)

lemma nested_first:
  assumes "map_of (rev ms) (js ''choices'') = Some ch"
    and "(\<exists>more. ch = JArray (JObject cs # more)) \<or>
         (\<exists>os. ch = JObject os \<and> map_of (rev os) (js ''0'') = Some (JObject cs))"
  shows "nestedContent (JObject ms) =
     (case map_of (rev cs) (js ''delta'') of
        Some (JObject ds) \<Rightarrow> map_of (rev ds) (js ''content'')
      | _ \<Rightarrow> None)"
proof -
  from assms(2) have "optGet (Some ch) (js ''0'') = Some (JObject cs)"
    by (auto simp add: optGet_def)
  with assms(1) show ?thesis
    by (simp add: nestedContent_object inner_object)
qed

lemma nested_no_first:
  assumes "\<forall>ch. map_of (rev ms) (js ''choices'') = Some ch \<longrightarrow>
      (\<forall>cs more. ch \<noteq> JArray (JObject cs # more)) \<and>
      (\<forall>os cs. ch = JObject os \<longrightarrow> map_of (rev os) (js ''0'') \<noteq> Some (JObject cs))"
  shows "nestedContent (JObject ms) = None"
proof (cases "map_of (rev ms) (js ''choices'')")
  case None
  then show ?thesis
    by (simp add: nestedContent_object optGet_def)
next
  case (Some ch)
  with assms have a: "\<forall>cs more. ch \<noteq> JArray (JObject cs # more)"
    and o: "\<forall>os cs. ch = JObject os \<longrightarrow> map_of (rev os) (js ''0'') \<noteq> Some (JObject cs)"
    by simp_all
  have "optGet (Some ch) (js ''0'') = None \<or>
      (\<exists>c0. optGet (Some ch) (js ''0'') = Some c0 \<and> (\<forall>cs. c0 \<noteq> JObject cs))"
  proof (cases ch)
    case (JArray xs)
    with a show ?thesis
      by (cases xs) (auto simp add: optGet_def)
  next
    case (JObject os)
    with o show ?thesis
      by (cases "map_of (rev os) (js ''0'')") (auto simp add: optGet_def)
  next
    case (JString x)
    then show ?thesis
      by (cases x) (auto simp add: optGet_def)
  qed (simp_all add: optGet_def)
  with Some show ?thesis
    by (auto simp add: nestedContent_object inner_None inner_not_object)
qed

lemma append_not_object:
  assumes "JSON_parse data = Some j" and "\<forall>ms. j \<noteq> JObject ms"
  shows "appendChunkFromSseData N st data = st"
proof (cases "j = JNull")
  case True
  with assms(1) show ?thesis
    by (simp add: appendChunkFromSseData_def appendChunk_try_def selectContent_def)
next
  case False
  with assms(2) have g: "getProp j (js ''response'') = Inr None"
    by (cases j) (simp_all add: keys_distinct)
  from False assms(2) have "optGet (Some j) (js ''choices'') = None"
    by (cases j) (simp_all add: optGet_def keys_distinct)
  then have "nestedContent j = None"
    by (simp add: nestedContent_def optGet_def)
  with assms(1) g show ?thesis
    using append_neither [of data j None N st] by simp
qed

lemma falsy_not_truthy:
  "c = JNull \<or> c = JBool False \<or> c = JString [] \<or> (\<exists>n. c = JNumber n \<and> number_isZero N n) \<Longrightarrow>
   \<not> truthy N c"
  by auto

section \<open>The claims\<close>

subsection \<open>C1\<close>

text \<open>
  Claim C1, as amended. In a block made of \<^verbatim>\<open>data:\<close> lines, each line gives the text that
  follows the prefix with all of its leading white space removed, not one space only: a line
  \<^verbatim>\<open>data:\<close>, then any white space \<open>ws\<close>, then a payload \<open>p\<close> that does not begin with white
  space, contributes exactly \<open>p\<close>. So \<^verbatim>\<open>data:   x\<close> yields \<^verbatim>\<open>x\<close>.
\<close>
theorem data_prefix_and_whitespace_stripped:
  assumes "items \<noteq> []"
    and "\<forall>(ws, p)\<in>set items.
           (\<forall>c\<in>set ws. isWhiteSpace c \<and> c \<noteq> LF \<and> c \<noteq> CR) \<and>
           (p = [] \<or> \<not> isWhiteSpace (hd p)) \<and> LF \<notin> set p \<and> CR \<notin> set p"
  shows "consumeSseEvents (join (map (\<lambda>(ws, p). dataPrefix @ ws @ p) items) [LF] @ blankLine @ rest) =
     \<lparr>events = join (map snd items) [LF] # events (consumeSseEvents rest),
      buffer = buffer (consumeSseEvents rest)\<rparr>"
proof -
  let ?lines = "map (\<lambda>(ws, p). dataPrefix @ ws @ p) items"
  from assms(1) have ne: "?lines \<noteq> []" by simp
  from assms(2) have ok: "\<forall>l\<in>set ?lines. l \<noteq> [] \<and> LF \<notin> set l \<and> CR \<notin> set l"
    using dataPrefix_chars by fastforce
  from assms(2) have "\<forall>(ws, p)\<in>set items. (\<forall>c\<in>set ws. isWhiteSpace c) \<and> (p = [] \<or> \<not> isWhiteSpace (hd p))"
    by fastforce
  then have dl: "dataLines_of ?lines = map snd items"
    by (rule dataLines_of_items)
  from ok have "\<forall>l\<in>set ?lines. LF \<notin> set l" by blast
  with ne have "split_on (join ?lines [LF]) LF = ?lines"
    by (rule split_on_join)
  with dl assms(1) have "blockEvents (join ?lines [LF]) = [join (map snd items) [LF]]"
    by (simp add: blockEvents_def)
  with consume_block [OF ne ok, of rest] show ?thesis
    by simp
qed

theorem data_prefix_and_whitespace_stripped_witness:
  "consumeSseEvents (js ''data:   x\<newline>\<newline>'') = \<lparr>events = [js ''x''], buffer = []\<rparr>"
proof -
  let ?items = "[(js ''   '', js ''x'')]"
  have h: "?items \<noteq> []"
    "\<forall>(ws, p)\<in>set ?items.
           (\<forall>c\<in>set ws. isWhiteSpace c \<and> c \<noteq> LF \<and> c \<noteq> CR) \<and>
           (p = [] \<or> \<not> isWhiteSpace (hd p)) \<and> LF \<notin> set p \<and> CR \<notin> set p"
    by (simp_all add: js_def isWhiteSpace_def)
  have eq: "js ''data:   x\<newline>\<newline>'' = join (map (\<lambda>(ws, p). dataPrefix @ ws @ p) ?items) [LF] @ blankLine @ []"
    by (simp add: js_def blankLine_def dataPrefix_def)
  have "consumeSseEvents (join (map (\<lambda>(ws, p). dataPrefix @ ws @ p) ?items) [LF] @ blankLine @ []) =
      \<lparr>events = [js ''x''], buffer = []\<rparr>"
    unfolding data_prefix_and_whitespace_stripped [OF h, of "[]"]
    by (simp add: consumeSseEvents_Nil)
  then show ?thesis
    by (simp only: eq)
qed

theorem one_space_only_counterexample:
  "events (consumeSseEvents (js ''data:   x\<newline>\<newline>'')) \<noteq> [js ''  x'']"
  by code_simp

subsection \<open>C2\<close>

text \<open>
  Claim C2. However a text is cut into chunks, framing chunk after chunk, each appended to
  the remainder the previous call returned, yields the events and the final remainder of one
  call on the whole text. The framer reads nothing but its argument (it is a function of the
  buffer), and a remainder framed again gives no event and itself as remainder.
\<close>
theorem chunk_boundary_invariance:
  "frameChunks [] vs = consumeSseEvents (concat vs) \<and>
   consumeSseEvents (buffer (consumeSseEvents buf)) =
     \<lparr>events = [], buffer = buffer (consumeSseEvents buf)\<rparr>"
proof
  show "frameChunks [] vs = consumeSseEvents (concat vs)"
    using frameChunks_after [of "[]" vs] by (cases "frameChunks [] vs") (simp add: consumeSseEvents_Nil)
  show "consumeSseEvents (buffer (consumeSseEvents buf)) =
     \<lparr>events = [], buffer = buffer (consumeSseEvents buf)\<rparr>"
    by (rule consume_remainder)
qed

theorem chunk_boundary_invariance_witness:
  "frameChunks [] [js ''data: a\<newline>'', js ''\<newline>da'', js ''ta: b\<newline>\<newline>data: c''] =
     \<lparr>events = [js ''a'', js ''b''], buffer = js ''data: c''\<rparr>"
proof -
  have "consumeSseEvents (concat [js ''data: a\<newline>'', js ''\<newline>da'', js ''ta: b\<newline>\<newline>data: c'']) =
     \<lparr>events = [js ''a'', js ''b''], buffer = js ''data: c''\<rparr>"
    by code_simp
  with chunk_boundary_invariance [of "[js ''data: a\<newline>'', js ''\<newline>da'', js ''ta: b\<newline>\<newline>data: c'']" "[]"]
  show ?thesis by simp
qed

subsection \<open>C3\<close>

text \<open>
  Claim C3. The read loop appends, in order, the deltas of the events that come strictly before
  the first \<^verbatim>\<open>[DONE]\<close> event of the whole stream, however the stream is cut into chunks, and
  nothing else. Once a chunk has brought the sentinel the loop is over: the chunks that would
  follow are never read, whatever they hold and however the body would have ended.
\<close>
theorem stops_at_sentinel:
  "readLoop N vs EndOfData [] st =
     (foldl (appendChunkFromSseData N) st
        (takeWhile (\<lambda>d. d \<noteq> DONE) (events (consumeSseEvents (concat vs @ blankLine)))), None) \<and>
   (DONE \<in> set (events (consumeSseEvents (concat vs))) \<longrightarrow>
    readLoop N (vs @ later) e [] st =
     (foldl (appendChunkFromSseData N) st
        (takeWhile (\<lambda>d. d \<noteq> DONE) (events (consumeSseEvents (concat vs)))), None))"
proof
  show "readLoop N vs EndOfData [] st =
     (foldl (appendChunkFromSseData N) st
        (takeWhile (\<lambda>d. d \<noteq> DONE) (events (consumeSseEvents (concat vs @ blankLine)))), None)"
    using readLoop_EndOfData [OF consumeSseEvents_Nil, of N vs st]
    by (simp add: finalEvents_foldl)
  show "DONE \<in> set (events (consumeSseEvents (concat vs))) \<longrightarrow>
    readLoop N (vs @ later) e [] st =
     (foldl (appendChunkFromSseData N) st
        (takeWhile (\<lambda>d. d \<noteq> DONE) (events (consumeSseEvents (concat vs)))), None)"
    using readLoop_prefix [OF consumeSseEvents_Nil, of N vs later e st]
    by (simp add: finalEvents_foldl)
qed

theorem stops_at_sentinel_witness:
  \<open>\<forall>N. readLoop N [js ''data: {"response":"A"}\<newline>\<newline>data: {"resp'',
                    js ''onse":"B"}\<newline>\<newline>data: [DONE]\<newline>\<newline>data: {"response":"C"}\<newline>\<newline>'']
          EndOfData [] \<lparr>responseText = [], assistantText = []\<rparr> =
        (\<lparr>responseText = js ''AB'', assistantText = js ''AB''\<rparr>, None) \<and>
      readLoop N [js ''data: {"response":"A"}\<newline>\<newline>data: [DONE]\<newline>\<newline>'',
                  js ''data: {"response":"C"}\<newline>\<newline>'']
          ReadFails [] \<lparr>responseText = [], assistantText = []\<rparr> =
        (\<lparr>responseText = js ''A'', assistantText = js ''A''\<rparr>, None)\<close>
proof (intro allI conjI)
  fix N :: numbers
  let ?st = \<open>\<lparr>responseText = [], assistantText = []\<rparr> :: stream\<close>
  let ?vs = \<open>[js ''data: {"response":"A"}\<newline>\<newline>data: {"resp'',
              js ''onse":"B"}\<newline>\<newline>data: [DONE]\<newline>\<newline>data: {"response":"C"}\<newline>\<newline>'']\<close>
  have \<open>foldl (appendChunkFromSseData N) ?st
        (takeWhile (\<lambda>d. d \<noteq> DONE) (events (consumeSseEvents (concat ?vs @ blankLine)))) =
      \<lparr>responseText = js ''AB'', assistantText = js ''AB''\<rparr>\<close>
    by code_simp
  with stops_at_sentinel [where N = N and vs = ?vs and st = ?st]
  show \<open>readLoop N ?vs EndOfData [] ?st =
        (\<lparr>responseText = js ''AB'', assistantText = js ''AB''\<rparr>, None)\<close>
    by (simp only:)
  let ?ws = \<open>[js ''data: {"response":"A"}\<newline>\<newline>data: [DONE]\<newline>\<newline>'']\<close>
  let ?later = \<open>[js ''data: {"response":"C"}\<newline>\<newline>'']\<close>
  have seen: \<open>DONE \<in> set (events (consumeSseEvents (concat ?ws)))\<close>
    by code_simp
  have \<open>foldl (appendChunkFromSseData N) ?st
        (takeWhile (\<lambda>d. d \<noteq> DONE) (events (consumeSseEvents (concat ?ws)))) =
      \<lparr>responseText = js ''A'', assistantText = js ''A''\<rparr>\<close>
    by code_simp
  with seen stops_at_sentinel [where N = N and vs = ?ws and later = ?later and e = ReadFails and st = ?st]
  have \<open>readLoop N (?ws @ ?later) ReadFails [] ?st =
        (\<lparr>responseText = js ''A'', assistantText = js ''A''\<rparr>, None)\<close>
    by (simp only:)
  then show \<open>readLoop N [js ''data: {"response":"A"}\<newline>\<newline>data: [DONE]\<newline>\<newline>'',
                  js ''data: {"response":"C"}\<newline>\<newline>'']
          ReadFails [] ?st =
        (\<lparr>responseText = js ''A'', assistantText = js ''A''\<rparr>, None)\<close>
    by (simp only: append_Cons append_Nil)
qed

subsection \<open>C4\<close>

text \<open>
  Claim C4, as amended. A payload that parses to an object whose member \<^verbatim>\<open>response\<close> is a
  non-empty string gives that string as the delta, whatever else it holds. Otherwise the nested
  lookup is followed: the member \<^verbatim>\<open>choices\<close>, its first element (of an array, or the member
  \<^verbatim>\<open>0\<close> of an object, since the code indexes without asking for an array), that element's
  member \<^verbatim>\<open>delta\<close>, that object's member \<^verbatim>\<open>content\<close>; a non-empty string found there is the
  delta. The text is left as it was when the lookup ends in no content or in a falsy one
  (\<^verbatim>\<open>null\<close>, \<^verbatim>\<open>false\<close>, the empty string, a zero), when \<^verbatim>\<open>delta\<close> is not an object, when
  \<^verbatim>\<open>choices\<close> has no first element that is an object, when the payload is not an object,
  when it does not parse, and whenever handling it raises an error. No payload makes a stream
  that ends with end-of-data leave the loop with an error. A nested content that is truthy and
  not a string is outside this statement.
\<close>
theorem delta_extraction:
  "(JSON_parse data = Some (JObject ms) \<and>
      map_of (rev ms) (js ''response'') = Some (JString s) \<and> s \<noteq> [] \<longrightarrow>
      appendChunkFromSseData N st data =
        \<lparr>responseText = responseText st @ s, assistantText = responseText st @ s\<rparr>) \<and>
   (JSON_parse data = Some (JObject ms) \<and>
      (\<forall>t. map_of (rev ms) (js ''response'') = Some (JString t) \<longrightarrow> t = []) \<and>
      map_of (rev ms) (js ''choices'') = Some ch \<and>
      ((\<exists>more. ch = JArray (JObject cs # more)) \<or>
       (\<exists>os. ch = JObject os \<and> map_of (rev os) (js ''0'') = Some (JObject cs))) \<and>
      map_of (rev cs) (js ''delta'') = Some (JObject ds) \<and>
      map_of (rev ds) (js ''content'') = Some (JString s) \<and> s \<noteq> [] \<longrightarrow>
      appendChunkFromSseData N st data =
        \<lparr>responseText = responseText st @ s, assistantText = responseText st @ s\<rparr>) \<and>
   (JSON_parse data = Some (JObject ms) \<and>
      (\<forall>t. map_of (rev ms) (js ''response'') = Some (JString t) \<longrightarrow> t = []) \<and>
      map_of (rev ms) (js ''choices'') = Some ch \<and>
      ((\<exists>more. ch = JArray (JObject cs # more)) \<or>
       (\<exists>os. ch = JObject os \<and> map_of (rev os) (js ''0'') = Some (JObject cs))) \<and>
      map_of (rev cs) (js ''delta'') = Some (JObject ds) \<and>
      (map_of (rev ds) (js ''content'') = None \<or>
       (\<exists>c. map_of (rev ds) (js ''content'') = Some c \<and>
          (c = JNull \<or> c = JBool False \<or> c = JString [] \<or> (\<exists>n. c = JNumber n \<and> number_isZero N n)))) \<longrightarrow>
      appendChunkFromSseData N st data = st) \<and>
   (JSON_parse data = Some (JObject ms) \<and>
      (\<forall>t. map_of (rev ms) (js ''response'') = Some (JString t) \<longrightarrow> t = []) \<and>
      map_of (rev ms) (js ''choices'') = Some ch \<and>
      ((\<exists>more. ch = JArray (JObject cs # more)) \<or>
       (\<exists>os. ch = JObject os \<and> map_of (rev os) (js ''0'') = Some (JObject cs))) \<and>
      (\<forall>ds. map_of (rev cs) (js ''delta'') \<noteq> Some (JObject ds)) \<longrightarrow>
      appendChunkFromSseData N st data = st) \<and>
   (JSON_parse data = Some (JObject ms) \<and>
      (\<forall>t. map_of (rev ms) (js ''response'') = Some (JString t) \<longrightarrow> t = []) \<and>
      (\<forall>ch. map_of (rev ms) (js ''choices'') = Some ch \<longrightarrow>
         (\<forall>cs more. ch \<noteq> JArray (JObject cs # more)) \<and>
         (\<forall>os cs. ch = JObject os \<longrightarrow> map_of (rev os) (js ''0'') \<noteq> Some (JObject cs))) \<longrightarrow>
      appendChunkFromSseData N st data = st) \<and>
   (JSON_parse data = Some j \<and> (\<forall>ms. j \<noteq> JObject ms) \<longrightarrow> appendChunkFromSseData N st data = st) \<and>
   (JSON_parse data = None \<longrightarrow> appendChunkFromSseData N st data = st) \<and>
   (appendChunk_try N st data = Inl e \<longrightarrow> appendChunkFromSseData N st data = st) \<and>
   snd (readLoop N vs EndOfData buf st) = None"
proof (intro conjI impI; (elim conjE)?)
  assume "JSON_parse data = Some (JObject ms)"
    "map_of (rev ms) (js ''response'') = Some (JString s)" "s \<noteq> []"
  then show "appendChunkFromSseData N st data =
        \<lparr>responseText = responseText st @ s, assistantText = responseText st @ s\<rparr>"
    by (intro append_direct [of data "JObject ms"]) simp_all
next
  assume p: "JSON_parse data = Some (JObject ms)"
    and d: "\<forall>t. map_of (rev ms) (js ''response'') = Some (JString t) \<longrightarrow> t = []"
    and c: "map_of (rev ms) (js ''choices'') = Some ch"
      "(\<exists>more. ch = JArray (JObject cs # more)) \<or>
       (\<exists>os. ch = JObject os \<and> map_of (rev os) (js ''0'') = Some (JObject cs))"
    and v: "map_of (rev cs) (js ''delta'') = Some (JObject ds)"
      "map_of (rev ds) (js ''content'') = Some (JString s)" "s \<noteq> []"
  from v have "nestedContent (JObject ms) = Some (JString s)"
    by (simp add: nested_first [OF c])
  with p d v(3) show "appendChunkFromSseData N st data =
        \<lparr>responseText = responseText st @ s, assistantText = responseText st @ s\<rparr>"
    by (intro append_nested [of data "JObject ms" "map_of (rev ms) (js ''response'')"]) simp_all
next
  assume p: "JSON_parse data = Some (JObject ms)"
    and d: "\<forall>t. map_of (rev ms) (js ''response'') = Some (JString t) \<longrightarrow> t = []"
    and c: "map_of (rev ms) (js ''choices'') = Some ch"
      "(\<exists>more. ch = JArray (JObject cs # more)) \<or>
       (\<exists>os. ch = JObject os \<and> map_of (rev os) (js ''0'') = Some (JObject cs))"
    and v: "map_of (rev cs) (js ''delta'') = Some (JObject ds)"
    and f: "map_of (rev ds) (js ''content'') = None \<or>
       (\<exists>c. map_of (rev ds) (js ''content'') = Some c \<and>
          (c = JNull \<or> c = JBool False \<or> c = JString [] \<or> (\<exists>n. c = JNumber n \<and> number_isZero N n)))"
  from v have n: "nestedContent (JObject ms) = map_of (rev ds) (js ''content'')"
    by (simp add: nested_first [OF c])
  from f have "nestedContent (JObject ms) = None \<or>
      (\<exists>c. nestedContent (JObject ms) = Some c \<and> \<not> truthy N c)"
    unfolding n using falsy_not_truthy [of _ N] by blast
  with p d show "appendChunkFromSseData N st data = st"
    by (intro append_neither [of data "JObject ms" "map_of (rev ms) (js ''response'')"]) simp_all
next
  assume p: "JSON_parse data = Some (JObject ms)"
    and d: "\<forall>t. map_of (rev ms) (js ''response'') = Some (JString t) \<longrightarrow> t = []"
    and c: "map_of (rev ms) (js ''choices'') = Some ch"
      "(\<exists>more. ch = JArray (JObject cs # more)) \<or>
       (\<exists>os. ch = JObject os \<and> map_of (rev os) (js ''0'') = Some (JObject cs))"
    and v: "\<forall>ds. map_of (rev cs) (js ''delta'') \<noteq> Some (JObject ds)"
  from v have "nestedContent (JObject ms) = None"
    by (simp add: nested_first [OF c] split: option.splits json.splits)
  with p d show "appendChunkFromSseData N st data = st"
    by (intro append_neither [of data "JObject ms" "map_of (rev ms) (js ''response'')"]) simp_all
next
  assume p: "JSON_parse data = Some (JObject ms)"
    and d: "\<forall>t. map_of (rev ms) (js ''response'') = Some (JString t) \<longrightarrow> t = []"
    and c: "\<forall>ch. map_of (rev ms) (js ''choices'') = Some ch \<longrightarrow>
         (\<forall>cs more. ch \<noteq> JArray (JObject cs # more)) \<and>
         (\<forall>os cs. ch = JObject os \<longrightarrow> map_of (rev os) (js ''0'') \<noteq> Some (JObject cs))"
  from c have "nestedContent (JObject ms) = None"
    by (rule nested_no_first)
  with p d show "appendChunkFromSseData N st data = st"
    by (intro append_neither [of data "JObject ms" "map_of (rev ms) (js ''response'')"]) simp_all
next
  assume "JSON_parse data = Some j" "\<forall>ms. j \<noteq> JObject ms"
  then show "appendChunkFromSseData N st data = st"
    by (rule append_not_object)
next
  assume "JSON_parse data = None"
  then show "appendChunkFromSseData N st data = st"
    by (rule append_invalid)
next
  assume "appendChunk_try N st data = Inl e"
  then show "appendChunkFromSseData N st data = st"
    by (rule append_error)
next
  show "snd (readLoop N vs EndOfData buf st) = None"
    by (rule readLoop_no_error)
qed

theorem delta_extraction_witness:
  \<open>\<forall>N st.
      appendChunkFromSseData N st (js ''{"response":"Hi"}'') =
        \<lparr>responseText = responseText st @ js ''Hi'', assistantText = responseText st @ js ''Hi''\<rparr> \<and>
      appendChunkFromSseData N st (js ''{"choices":[{"delta":{"content":"Hi"}}]}'') =
        \<lparr>responseText = responseText st @ js ''Hi'', assistantText = responseText st @ js ''Hi''\<rparr> \<and>
      appendChunkFromSseData N st (js ''{"choices":[{"delta":{"content":null}}]}'') = st \<and>
      appendChunkFromSseData N st (js ''{"choices":[{"index":"a"}]}'') = st \<and>
      appendChunkFromSseData N st (js ''{}'') = st \<and>
      appendChunkFromSseData N st (js ''[true]'') = st \<and>
      appendChunkFromSseData N st (js ''not json'') = st \<and>
      appendChunkFromSseData N st (js ''null'') = st\<close>
proof (intro allI conjI)
  fix N :: numbers and st :: stream
  have ne: "js ''Hi'' \<noteq> []"
    by (simp add: js_def)
  let ?m1 = "[(js ''response'', JString (js ''Hi''))]"
  have p1: \<open>JSON_parse (js ''{"response":"Hi"}'') = Some (JObject ?m1)\<close>
    by code_simp
  have g1: "map_of (rev ?m1) (js ''response'') = Some (JString (js ''Hi''))"
    by simp
  from p1 g1 ne
    delta_extraction [where data = \<open>js ''{"response":"Hi"}''\<close> and ms = ?m1 and s = "js ''Hi''" and N = N and st = st,
      THEN conjunct1]
  show \<open>appendChunkFromSseData N st (js ''{"response":"Hi"}'') =
        \<lparr>responseText = responseText st @ js ''Hi'', assistantText = responseText st @ js ''Hi''\<rparr>\<close>
    by blast
next
  fix N :: numbers and st :: stream
  have ne: "js ''Hi'' \<noteq> []"
    by (simp add: js_def)
  let ?ds = "[(js ''content'', JString (js ''Hi''))]"
  let ?cs = "[(js ''delta'', JObject ?ds)]"
  let ?ch = "JArray [JObject ?cs]"
  let ?ms = "[(js ''choices'', ?ch)]"
  have p: \<open>JSON_parse (js ''{"choices":[{"delta":{"content":"Hi"}}]}'') = Some (JObject ?ms)\<close>
    by code_simp
  have h: "\<forall>t. map_of (rev ?ms) (js ''response'') = Some (JString t) \<longrightarrow> t = []"
    "map_of (rev ?ms) (js ''choices'') = Some ?ch"
    "(\<exists>more. ?ch = JArray (JObject ?cs # more)) \<or>
       (\<exists>os. ?ch = JObject os \<and> map_of (rev os) (js ''0'') = Some (JObject ?cs))"
    "map_of (rev ?cs) (js ''delta'') = Some (JObject ?ds)"
    "map_of (rev ?ds) (js ''content'') = Some (JString (js ''Hi''))"
    by (simp_all add: js_def)
  from p h ne
    delta_extraction [where data = \<open>js ''{"choices":[{"delta":{"content":"Hi"}}]}''\<close> and ms = ?ms
      and ch = ?ch and cs = ?cs and ds = ?ds and s = "js ''Hi''" and N = N and st = st,
      THEN conjunct2, THEN conjunct1]
  show \<open>appendChunkFromSseData N st (js ''{"choices":[{"delta":{"content":"Hi"}}]}'') =
        \<lparr>responseText = responseText st @ js ''Hi'', assistantText = responseText st @ js ''Hi''\<rparr>\<close>
    by blast
next
  fix N :: numbers and st :: stream
  let ?ds = "[(js ''content'', JNull)]"
  let ?cs = "[(js ''delta'', JObject ?ds)]"
  let ?ch = "JArray [JObject ?cs]"
  let ?ms = "[(js ''choices'', ?ch)]"
  have p: \<open>JSON_parse (js ''{"choices":[{"delta":{"content":null}}]}'') = Some (JObject ?ms)\<close>
    by code_simp
  have h: "\<forall>t. map_of (rev ?ms) (js ''response'') = Some (JString t) \<longrightarrow> t = []"
    "map_of (rev ?ms) (js ''choices'') = Some ?ch"
    "(\<exists>more. ?ch = JArray (JObject ?cs # more)) \<or>
       (\<exists>os. ?ch = JObject os \<and> map_of (rev os) (js ''0'') = Some (JObject ?cs))"
    "map_of (rev ?cs) (js ''delta'') = Some (JObject ?ds)"
    "map_of (rev ?ds) (js ''content'') = None \<or>
       (\<exists>c. map_of (rev ?ds) (js ''content'') = Some c \<and>
          (c = JNull \<or> c = JBool False \<or> c = JString [] \<or> (\<exists>n. c = JNumber n \<and> number_isZero N n)))"
    by (simp_all add: js_def)
  from p h
    delta_extraction [where data = \<open>js ''{"choices":[{"delta":{"content":null}}]}''\<close> and ms = ?ms
      and ch = ?ch and cs = ?cs and ds = ?ds and N = N and st = st,
      THEN conjunct2, THEN conjunct2, THEN conjunct1]
  show \<open>appendChunkFromSseData N st (js ''{"choices":[{"delta":{"content":null}}]}'') = st\<close>
    by blast
next
  fix N :: numbers and st :: stream
  let ?cs = "[(js ''index'', JString (js ''a''))]"
  let ?ch = "JArray [JObject ?cs]"
  let ?ms = "[(js ''choices'', ?ch)]"
  have p: \<open>JSON_parse (js ''{"choices":[{"index":"a"}]}'') = Some (JObject ?ms)\<close>
    by code_simp
  have h: "\<forall>t. map_of (rev ?ms) (js ''response'') = Some (JString t) \<longrightarrow> t = []"
    "map_of (rev ?ms) (js ''choices'') = Some ?ch"
    "(\<exists>more. ?ch = JArray (JObject ?cs # more)) \<or>
       (\<exists>os. ?ch = JObject os \<and> map_of (rev os) (js ''0'') = Some (JObject ?cs))"
    "\<forall>ds. map_of (rev ?cs) (js ''delta'') \<noteq> Some (JObject ds)"
    by (simp_all add: js_def)
  from p h
    delta_extraction [where data = \<open>js ''{"choices":[{"index":"a"}]}''\<close> and ms = ?ms
      and ch = ?ch and cs = ?cs and N = N and st = st,
      THEN conjunct2, THEN conjunct2, THEN conjunct2, THEN conjunct1]
  show \<open>appendChunkFromSseData N st (js ''{"choices":[{"index":"a"}]}'') = st\<close>
    by blast
next
  fix N :: numbers and st :: stream
  have p: \<open>JSON_parse (js ''{}'') = Some (JObject [])\<close>
    by code_simp
  from p delta_extraction [where data = \<open>js ''{}''\<close> and ms = "[]" and N = N and st = st,
      THEN conjunct2, THEN conjunct2, THEN conjunct2, THEN conjunct2, THEN conjunct1]
  show \<open>appendChunkFromSseData N st (js ''{}'') = st\<close>
    by simp
next
  fix N :: numbers and st :: stream
  have p: \<open>JSON_parse (js ''[true]'') = Some (JArray [JBool True])\<close>
    by code_simp
  from p delta_extraction [where data = \<open>js ''[true]''\<close> and j = "JArray [JBool True]" and N = N and st = st,
      THEN conjunct2, THEN conjunct2, THEN conjunct2, THEN conjunct2, THEN conjunct2, THEN conjunct1]
  show \<open>appendChunkFromSseData N st (js ''[true]'') = st\<close>
    by simp
next
  fix N :: numbers and st :: stream
  have p: \<open>JSON_parse (js ''not json'') = None\<close>
    by code_simp
  with delta_extraction [where data = \<open>js ''not json''\<close> and N = N and st = st,
      THEN conjunct2, THEN conjunct2, THEN conjunct2, THEN conjunct2, THEN conjunct2, THEN conjunct2, THEN conjunct1]
  show \<open>appendChunkFromSseData N st (js ''not json'') = st\<close>
    by simp
next
  fix N :: numbers and st :: stream
  have p: \<open>appendChunk_try N st (js ''null'') = Inl TypeError\<close>
    by code_simp
  with delta_extraction [where data = \<open>js ''null''\<close> and e = TypeError and N = N and st = st,
      THEN conjunct2, THEN conjunct2, THEN conjunct2, THEN conjunct2, THEN conjunct2, THEN conjunct2, THEN conjunct2, THEN conjunct1]
  show \<open>appendChunkFromSseData N st (js ''null'') = st\<close>
    by simp
qed

text \<open>
  Claim C4 as it was written fails on payloads that match neither schema and still give a
  delta: \<^verbatim>\<open>choices\<close> may be an object with a member \<^verbatim>\<open>0\<close>, and a nested content that is
  not a string, here \<^verbatim>\<open>true\<close>, is appended as its text.
\<close>
theorem delta_without_schema_counterexample:
  \<open>appendChunkFromSseData exampleNumbers \<lparr>responseText = [], assistantText = []\<rparr>
      (js ''{"choices":{"0":{"delta":{"content":"Hi"}}}}'') =
     \<lparr>responseText = js ''Hi'', assistantText = js ''Hi''\<rparr> \<and>
   appendChunkFromSseData exampleNumbers \<lparr>responseText = [], assistantText = []\<rparr>
      (js ''{"choices":[{"delta":{"content":true}}]}'') =
     \<lparr>responseText = js ''true'', assistantText = js ''true''\<rparr>\<close>
  by code_simp

subsection \<open>C5\<close>

text \<open>
  Claim C5. When the response has a status outside 200 to 299, or has no body, the cycle adds
  the user's turn to the history and nothing else, shows exactly one error message (after the
  user's message and the empty assistant bubble), logs one error, and ends with the in-flight
  flag cleared, the input and the button enabled and the typing indicator hidden.
\<close>
theorem transport_failure:
  assumes "trim (userInput_value s) \<noteq> []" and "\<not> isProcessing s"
    and "\<not> ok r \<or> body_of r = None"
  shows "chatHistory (sendMessage N sel (Resolves r) s) =
       chatHistory s @ [\<lparr>role = js ''user'', content = trim (userInput_value s)\<rparr>] \<and>
     chatMessages (sendMessage N sel (Resolves r) s) =
       chatMessages s @
       [MessageEl (js ''message user-message'') (js ''<p>'' @ escapeHtml (trim (userInput_value s)) @ js ''</p>''),
        AssistantEl (if getAgent sel = js ''cf'' then js ''Cloudflare'' else js ''Azure'') [],
        MessageEl (js ''message assistant-message'') (js ''<p>'' @ errorText @ js ''</p>'')] \<and>
     length (console (sendMessage N sel (Resolves r) s)) = length (console s) + 1 \<and>
     \<not> isProcessing (sendMessage N sel (Resolves r) s) \<and>
     \<not> userInput_disabled (sendMessage N sel (Resolves r) s) \<and>
     \<not> sendButton_disabled (sendMessage N sel (Resolves r) s) \<and>
     \<not> typingIndicator_visible (sendMessage N sel (Resolves r) s)"
proof -
  let ?s4 = "(addMessageToChat (js ''user'') (trim (userInput_value s))
       (s\<lparr>isProcessing := True, userInput_disabled := True, sendButton_disabled := True\<rparr>))
       \<lparr>userInput_value := [], typingIndicator_visible := True,
        chatHistory := chatHistory s @ [\<lparr>role = js ''user'', content = trim (userInput_value s)\<rparr>]\<rparr>"
  from assms(3) obtain e where
    "sendMessage_try N (getAgent sel) (Resolves r) ?s4 =
     (?s4\<lparr>chatMessages := chatMessages ?s4 @ [AssistantEl (if getAgent sel = js ''cf'' then js ''Cloudflare'' else js ''Azure'') []],
        fetched := fetched ?s4 @ [\<lparr>agent = getAgent sel, messages = chatHistory ?s4\<rparr>]\<rparr>, Some e)"
    using sendMessage_try_failure [of r N "getAgent sel" ?s4] by blast
  with assms(1,2) show ?thesis
    by (simp add: sendMessage_def Let_def addMessageToChat_def escapeHtml_errorText user_class)
qed

theorem transport_failure_witness:
  "\<forall>N sel.
     chatHistory (sendMessage N sel (Resolves \<lparr>status = 500, text_of = Some (js ''boom''), body_of = None\<rparr>)
        (initial\<lparr>userInput_value := js '' hi ''\<rparr>)) =
       [greeting, \<lparr>role = js ''user'', content = js ''hi''\<rparr>] \<and>
     chatMessages (sendMessage N sel (Resolves \<lparr>status = 500, text_of = Some (js ''boom''), body_of = None\<rparr>)
        (initial\<lparr>userInput_value := js '' hi ''\<rparr>)) =
       [MessageEl (js ''message user-message'') (js ''<p>hi</p>''),
        AssistantEl (if getAgent sel = js ''cf'' then js ''Cloudflare'' else js ''Azure'') [],
        MessageEl (js ''message assistant-message'')
          (js ''<p>Sorry, there was an error processing your request.</p>'')] \<and>
     \<not> isProcessing (sendMessage N sel (Resolves \<lparr>status = 500, text_of = Some (js ''boom''), body_of = None\<rparr>)
        (initial\<lparr>userInput_value := js '' hi ''\<rparr>)) \<and>
     \<not> typingIndicator_visible (sendMessage N sel (Resolves \<lparr>status = 500, text_of = Some (js ''boom''), body_of = None\<rparr>)
        (initial\<lparr>userInput_value := js '' hi ''\<rparr>))"
proof (intro allI)
  fix N :: numbers and sel :: selector
  let ?r = "\<lparr>status = 500, text_of = Some (js ''boom''), body_of = None\<rparr>"
  let ?s = "initial\<lparr>userInput_value := js '' hi ''\<rparr>"
  have t: "trim (userInput_value ?s) = js ''hi''"
    by (simp add: trim_def js_def isWhiteSpace_def)
  then have h1: "trim (userInput_value ?s) \<noteq> []"
    by (simp add: js_def)
  have h2: "\<not> isProcessing ?s"
    by (simp add: initial_def)
  have h3: "\<not> ok ?r \<or> body_of ?r = None"
    by (simp add: ok_def)
  have e: "escapeHtml (js ''hi'') = js ''hi''"
    by (simp add: escapeHtml_def replace_all_def js_def)
  from transport_failure [OF h1 h2 h3, of N sel]
  show "chatHistory (sendMessage N sel (Resolves ?r) ?s) = [greeting, \<lparr>role = js ''user'', content = js ''hi''\<rparr>] \<and>
     chatMessages (sendMessage N sel (Resolves ?r) ?s) =
       [MessageEl (js ''message user-message'') (js ''<p>hi</p>''),
        AssistantEl (if getAgent sel = js ''cf'' then js ''Cloudflare'' else js ''Azure'') [],
        MessageEl (js ''message assistant-message'')
          (js ''<p>Sorry, there was an error processing your request.</p>'')] \<and>
     \<not> isProcessing (sendMessage N sel (Resolves ?r) ?s) \<and>
     \<not> typingIndicator_visible (sendMessage N sel (Resolves ?r) ?s)"
    unfolding t e by (simp add: initial_def errorText_def js_def)
qed

subsection \<open>C6\<close>

text \<open>
  Claim C6. When the response is a success with a body and the read loop ends without an error,
  the history gains the user's turn, followed by exactly one assistant turn holding the
  accumulated text when that text is not empty, and by nothing when it is empty.
\<close>
theorem clean_conclusion:
  assumes "trim (userInput_value s) \<noteq> []" and "\<not> isProcessing s"
    and "ok r" and "body_of r = Some b"
    and "readLoop N (chunks b) (ending b) [] \<lparr>responseText = [], assistantText = []\<rparr> = (st, None)"
  shows "chatHistory (sendMessage N sel (Resolves r) s) =
     chatHistory s @ [\<lparr>role = js ''user'', content = trim (userInput_value s)\<rparr>] @
     (if responseText st \<noteq> [] then [\<lparr>role = js ''assistant'', content = responseText st\<rparr>] else [])"
proof -
  let ?s4 = "(addMessageToChat (js ''user'') (trim (userInput_value s))
       (s\<lparr>isProcessing := True, userInput_disabled := True, sendButton_disabled := True\<rparr>))
       \<lparr>userInput_value := [], typingIndicator_visible := True,
        chatHistory := chatHistory s @ [\<lparr>role = js ''user'', content = trim (userInput_value s)\<rparr>]\<rparr>"
  obtain s5 err where tr: "sendMessage_try N (getAgent sel) (Resolves r) ?s4 = (s5, err)"
    by (cases "sendMessage_try N (getAgent sel) (Resolves r) ?s4")
  with sendMessage_try_clean [OF assms(3,4,5), of "getAgent sel" ?s4]
  have "chatHistory s5 = chatHistory ?s4 @
      (if responseText st \<noteq> [] then [\<lparr>role = js ''assistant'', content = responseText st\<rparr>] else [])"
    and "err = None"
    by simp_all
  with assms(1,2) tr show ?thesis
    by (simp add: sendMessage_def Let_def addMessageToChat_def)
qed

theorem clean_conclusion_witness:
  \<open>\<forall>N sel.
     chatHistory (sendMessage N sel
        (Resolves \<lparr>status = 200, text_of = None, body_of = Some
           \<lparr>chunks = [js ''data: {"response":"A"}\<newline>\<newline>data: {"response":"B"}\<newline>\<newline>''], ending = EndOfData\<rparr>\<rparr>)
        (initial\<lparr>userInput_value := js ''hi''\<rparr>)) =
       [greeting, \<lparr>role = js ''user'', content = js ''hi''\<rparr>, \<lparr>role = js ''assistant'', content = js ''AB''\<rparr>] \<and>
     chatHistory (sendMessage N sel
        (Resolves \<lparr>status = 200, text_of = None, body_of = Some
           \<lparr>chunks = [js ''data: [DONE]\<newline>\<newline>''], ending = EndOfData\<rparr>\<rparr>)
        (initial\<lparr>userInput_value := js ''hi''\<rparr>)) =
       [greeting, \<lparr>role = js ''user'', content = js ''hi''\<rparr>]\<close>
proof (intro allI conjI)
  fix N :: numbers and sel :: selector
  let ?s = "initial\<lparr>userInput_value := js ''hi''\<rparr>"
  have t: "trim (userInput_value ?s) = js ''hi''"
    by (simp add: trim_def js_def isWhiteSpace_def)
  then have h1: "trim (userInput_value ?s) \<noteq> []"
    by (simp add: js_def)
  have h2: "\<not> isProcessing ?s"
    by (simp add: initial_def)
  have ne: "js ''AB'' \<noteq> []"
    by (simp add: js_def)
  let ?b1 = \<open>\<lparr>chunks = [js ''data: {"response":"A"}\<newline>\<newline>data: {"response":"B"}\<newline>\<newline>''], ending = EndOfData\<rparr>\<close>
  let ?r1 = "\<lparr>status = 200, text_of = None, body_of = Some ?b1\<rparr>"
  have ok1: "ok ?r1" "body_of ?r1 = Some ?b1"
    by (simp_all add: ok_def)
  have l1: "readLoop N (chunks ?b1) (ending ?b1) [] \<lparr>responseText = [], assistantText = []\<rparr> =
      (\<lparr>responseText = js ''AB'', assistantText = js ''AB''\<rparr>, None)"
    by code_simp
  from clean_conclusion [OF h1 h2 ok1 l1, of sel] ne
  show "chatHistory (sendMessage N sel (Resolves ?r1) ?s) =
       [greeting, \<lparr>role = js ''user'', content = js ''hi''\<rparr>, \<lparr>role = js ''assistant'', content = js ''AB''\<rparr>]"
    unfolding t by (simp add: initial_def)
  let ?b2 = \<open>\<lparr>chunks = [js ''data: [DONE]\<newline>\<newline>''], ending = EndOfData\<rparr>\<close>
  let ?r2 = "\<lparr>status = 200, text_of = None, body_of = Some ?b2\<rparr>"
  have ok2: "ok ?r2" "body_of ?r2 = Some ?b2"
    by (simp_all add: ok_def)
  have l2: "readLoop N (chunks ?b2) (ending ?b2) [] \<lparr>responseText = [], assistantText = []\<rparr> =
      (\<lparr>responseText = [], assistantText = []\<rparr>, None)"
    by code_simp
  from clean_conclusion [OF h1 h2 ok2 l2, of sel]
  show "chatHistory (sendMessage N sel (Resolves ?r2) ?s) =
       [greeting, \<lparr>role = js ''user'', content = js ''hi''\<rparr>]"
    unfolding t by (simp add: initial_def)
qed

subsection \<open>C7\<close>

text \<open>
  Claim C7. A stream that ends without a blank line is read exactly as the same stream with a
  blank line sent as its last chunk. In particular a \<^verbatim>\<open>data:\<close> line left in the buffer when the
  source signals end-of-data is processed (appended, unless it is the sentinel), and an empty
  buffer adds nothing.
\<close>
theorem end_of_data_flush:
  "readLoop N vs EndOfData [] st = readLoop N (vs @ [blankLine]) EndOfData [] st \<and>
   ((\<forall>c\<in>set ws. isWhiteSpace c \<and> c \<noteq> LF \<and> c \<noteq> CR) \<and>
    (p = [] \<or> \<not> isWhiteSpace (hd p)) \<and> LF \<notin> set p \<and> CR \<notin> set p \<longrightarrow>
    readLoop N [] EndOfData (dataPrefix @ ws @ p) st =
      (if p = DONE then st else appendChunkFromSseData N st p, None)) \<and>
   readLoop N [] EndOfData [] st = (st, None)"
proof (intro conjI impI)
  have "consumeSseEvents ((concat vs @ blankLine) @ blankLine) =
      \<lparr>events = events (consumeSseEvents (concat vs @ blankLine)) @
         events (consumeSseEvents (buffer (consumeSseEvents (concat vs @ blankLine)) @ blankLine)),
       buffer = buffer (consumeSseEvents (buffer (consumeSseEvents (concat vs @ blankLine)) @ blankLine))\<rparr>"
    by (rule consumeSseEvents_append)
  then have "events (consumeSseEvents (concat (vs @ [blankLine]) @ blankLine)) =
      events (consumeSseEvents (concat vs @ blankLine))"
    by (simp add: tail_no_events)
  then show "readLoop N vs EndOfData [] st = readLoop N (vs @ [blankLine]) EndOfData [] st"
    using readLoop_EndOfData [OF consumeSseEvents_Nil, of N vs st]
      readLoop_EndOfData [OF consumeSseEvents_Nil, of N "vs @ [blankLine]" st]
    by simp
next
  assume "(\<forall>c\<in>set ws. isWhiteSpace c \<and> c \<noteq> LF \<and> c \<noteq> CR) \<and>
    (p = [] \<or> \<not> isWhiteSpace (hd p)) \<and> LF \<notin> set p \<and> CR \<notin> set p"
  then have "consumeSseEvents ((dataPrefix @ ws @ p) @ blankLine) = \<lparr>events = [p], buffer = []\<rparr>"
    by (intro consume_data_line) blast+
  then show "readLoop N [] EndOfData (dataPrefix @ ws @ p) st =
      (if p = DONE then st else appendChunkFromSseData N st p, None)"
    by simp
next
  show "readLoop N [] EndOfData [] st = (st, None)"
    using flush_of_blank(1) by simp
qed

theorem end_of_data_flush_witness:
  \<open>\<forall>N st. readLoop N [js ''data: {"response":"Hi"}''] EndOfData [] st =
           readLoop N [js ''data: {"response":"Hi"}'', blankLine] EndOfData [] st \<and>
         readLoop N [] EndOfData (js ''data: {"response":"Hi"}'') st =
           (\<lparr>responseText = responseText st @ js ''Hi'', assistantText = responseText st @ js ''Hi''\<rparr>, None) \<and>
         readLoop N [] EndOfData [] st = (st, None)\<close>
proof (intro allI conjI)
  fix N :: numbers and st :: stream
  let ?p = \<open>js ''{"response":"Hi"}''\<close>
  note inst = end_of_data_flush [where N = N and st = st and vs = \<open>[js ''data: {"response":"Hi"}'']\<close>
      and ws = "js '' ''" and p = ?p]
  from inst show \<open>readLoop N [js ''data: {"response":"Hi"}''] EndOfData [] st =
           readLoop N [js ''data: {"response":"Hi"}'', blankLine] EndOfData [] st\<close>
    by simp
  have h: "(\<forall>c\<in>set (js '' ''). isWhiteSpace c \<and> c \<noteq> LF \<and> c \<noteq> CR) \<and>
    (?p = [] \<or> \<not> isWhiteSpace (hd ?p)) \<and> LF \<notin> set ?p \<and> CR \<notin> set ?p"
    by (simp add: js_def isWhiteSpace_def)
  have eq: \<open>js ''data: {"response":"Hi"}'' = dataPrefix @ js '' '' @ ?p\<close>
    by (simp add: js_def dataPrefix_def)
  have nd: "?p \<noteq> DONE"
    by (simp add: js_def DONE_def)
  have ap: \<open>appendChunkFromSseData N st ?p =
      \<lparr>responseText = responseText st @ js ''Hi'', assistantText = responseText st @ js ''Hi''\<rparr>\<close>
  proof (rule append_direct)
    show \<open>JSON_parse ?p = Some (JObject [(js ''response'', JString (js ''Hi''))])\<close>
      by code_simp
    show "getProp (JObject [(js ''response'', JString (js ''Hi''))]) (js ''response'') =
        Inr (Some (JString (js ''Hi'')))"
      by (simp add: js_def)
    show "js ''Hi'' \<noteq> []"
      by (simp add: js_def)
  qed
  from inst h have "readLoop N [] EndOfData (dataPrefix @ js '' '' @ ?p) st =
      (if ?p = DONE then st else appendChunkFromSseData N st ?p, None)"
    by blast
  with nd ap show \<open>readLoop N [] EndOfData (js ''data: {"response":"Hi"}'') st =
           (\<lparr>responseText = responseText st @ js ''Hi'', assistantText = responseText st @ js ''Hi''\<rparr>, None)\<close>
    by (simp only: eq if_False)
  from inst show "readLoop N [] EndOfData [] st = (st, None)"
    by blast
qed

subsection \<open>C8\<close>

text \<open>
  Claim C8. A complete block of non-empty lines, followed by a blank line, yields exactly one
  event when it has a \<^verbatim>\<open>data:\<close> line: the payloads of its \<^verbatim>\<open>data:\<close> lines, in their order,
  joined by a newline. A block with no \<^verbatim>\<open>data:\<close> line yields no event. What follows the
  block is framed as if the block were not there.
\<close>
theorem block_yields_one_event:
  assumes "lines \<noteq> []" and "\<forall>l\<in>set lines. l \<noteq> [] \<and> LF \<notin> set l \<and> CR \<notin> set l"
  shows "consumeSseEvents (join lines [LF] @ blankLine @ rest) =
     \<lparr>events =
        (if \<exists>l\<in>set lines. startsWith l dataPrefix
         then [join (map (\<lambda>l. trimStart (drop (length dataPrefix) l))
                      (filter (\<lambda>l. startsWith l dataPrefix) lines)) [LF]]
         else []) @ events (consumeSseEvents rest),
      buffer = buffer (consumeSseEvents rest)\<rparr>"
proof -
  from assms have "\<forall>l\<in>set lines. LF \<notin> set l" by simp
  with assms(1) have "blockEvents (join lines [LF]) =
     (if \<exists>l\<in>set lines. startsWith l dataPrefix
      then [join (map (\<lambda>l. trimStart (drop (length dataPrefix) l))
                   (filter (\<lambda>l. startsWith l dataPrefix) lines)) [LF]]
      else [])"
    by (rule blockEvents_join)
  with consume_block [OF assms, of rest] show ?thesis
    by simp
qed

theorem block_yields_one_event_witness:
  "consumeSseEvents (js ''data: a\<newline>: note\<newline>data:b\<newline>\<newline>'') = \<lparr>events = [js ''a\<newline>b''], buffer = []\<rparr> \<and>
   consumeSseEvents (js '': keep-alive\<newline>\<newline>'') = \<lparr>events = [], buffer = []\<rparr>"
proof
  let ?L = "[js ''data: a'', js '': note'', js ''data:b'']"
  have h: "?L \<noteq> []" "\<forall>l\<in>set ?L. l \<noteq> [] \<and> LF \<notin> set l \<and> CR \<notin> set l"
    by (simp_all add: js_def)
  have eq: "js ''data: a\<newline>: note\<newline>data:b\<newline>\<newline>'' = join ?L [LF] @ blankLine @ []"
    by (simp add: js_def blankLine_def)
  have "consumeSseEvents (join ?L [LF] @ blankLine @ []) = \<lparr>events = [js ''a\<newline>b''], buffer = []\<rparr>"
    unfolding block_yields_one_event [OF h, of "[]"]
    by (simp add: js_def startsWith_def dataPrefix_def trimStart_def isWhiteSpace_def consumeSseEvents_Nil)
  then show "consumeSseEvents (js ''data: a\<newline>: note\<newline>data:b\<newline>\<newline>'') = \<lparr>events = [js ''a\<newline>b''], buffer = []\<rparr>"
    by (simp only: eq)
next
  let ?L = "[js '': keep-alive'']"
  have h: "?L \<noteq> []" "\<forall>l\<in>set ?L. l \<noteq> [] \<and> LF \<notin> set l \<and> CR \<notin> set l"
    by (simp_all add: js_def)
  have eq: "js '': keep-alive\<newline>\<newline>'' = join ?L [LF] @ blankLine @ []"
    by (simp add: js_def blankLine_def)
  have "consumeSseEvents (join ?L [LF] @ blankLine @ []) = \<lparr>events = [], buffer = []\<rparr>"
    unfolding block_yields_one_event [OF h, of "[]"]
    by (simp add: js_def startsWith_def dataPrefix_def consumeSseEvents_Nil)
  then show "consumeSseEvents (js '': keep-alive\<newline>\<newline>'') = \<lparr>events = [], buffer = []\<rparr>"
    by (simp only: eq)
qed

subsection \<open>C9\<close>

text \<open>
  Claim C9. \<^verbatim>\<open>escapeHtml\<close> replaces every character by its entity when it is one of the five
  (and leaves it alone otherwise), all at once although the code makes five passes. Its result
  holds none of \<^verbatim>\<open><\<close>, \<^verbatim>\<open>>\<close>, the double quote and the single quote, and every
  \<^verbatim>\<open>&\<close> in it starts one of the five entities. \<^verbatim>\<open>addMessageToChat\<close> puts the escaped
  content, and nothing else of the content, into the element it appends.
\<close>
theorem escapeHtml_escapes:
  "escapeHtml s = concat (map htmlEntity s) \<and>
   0x3C \<notin> set (escapeHtml s) \<and> 0x3E \<notin> set (escapeHtml s) \<and>
   0x22 \<notin> set (escapeHtml s) \<and> 0x27 \<notin> set (escapeHtml s) \<and>
   (\<forall>i<length (escapeHtml s). escapeHtml s ! i = 0x26 \<longrightarrow>
      (\<exists>e\<in>set entities. startsWith (drop i (escapeHtml s)) e)) \<and>
   chatMessages (addMessageToChat r c p) =
     chatMessages p @ [MessageEl (js ''message '' @ r @ js ''-message'') (js ''<p>'' @ escapeHtml c @ js ''</p>'')]"
  using htmlEntity_chars concat_entities_amp [of _ s]
  by (simp add: escapeHtml_concat addMessageToChat_def)

theorem escapeHtml_escapes_witness:
  \<open>escapeHtml (js ''<a href="x">Tom & Jerry'' @ [0x27] @ js ''s</a>'') =
     js ''&lt;a href=&quot;x&quot;&gt;Tom &amp; Jerry&#039;s&lt;/a&gt;'' \<and>
   chatMessages (addMessageToChat (js ''user'') (js ''<b>'') initial) =
     [MessageEl (js ''message user-message'') (js ''<p>&lt;b&gt;</p>'')] \<and>
   (\<exists>e\<in>set entities. startsWith (drop 1 (escapeHtml (js ''a&b''))) e)\<close>
proof (intro conjI)
  let ?s = \<open>js ''<a href="x">Tom & Jerry'' @ [0x27] @ js ''s</a>''\<close>
  have \<open>concat (map htmlEntity ?s) = js ''&lt;a href=&quot;x&quot;&gt;Tom &amp; Jerry&#039;s&lt;/a&gt;''\<close>
    by (simp add: htmlEntity_def js_def)
  with escapeHtml_escapes [of ?s]
  show \<open>escapeHtml ?s = js ''&lt;a href=&quot;x&quot;&gt;Tom &amp; Jerry&#039;s&lt;/a&gt;''\<close>
    by simp
  have \<open>concat (map htmlEntity (js ''<b>'')) = js ''&lt;b&gt;''\<close>
    by (simp add: htmlEntity_def js_def)
  with escapeHtml_escapes [of "js ''<b>''" "js ''user''" "js ''<b>''" initial]
  show \<open>chatMessages (addMessageToChat (js ''user'') (js ''<b>'') initial) =
     [MessageEl (js ''message user-message'') (js ''<p>&lt;b&gt;</p>'')]\<close>
    by (simp add: initial_def) (simp add: js_def)
  have \<open>concat (map htmlEntity (js ''a&b'')) = js ''a&amp;b''\<close>
    by (simp add: htmlEntity_def js_def)
  with escapeHtml_escapes [of "js ''a&b''"] have e: \<open>escapeHtml (js ''a&b'') = js ''a&amp;b''\<close>
    by simp
  then have "1 < length (escapeHtml (js ''a&b''))" "escapeHtml (js ''a&b'') ! 1 = 0x26"
    by (simp_all add: js_def)
  with escapeHtml_escapes [of "js ''a&b''"]
  show "\<exists>e\<in>set entities. startsWith (drop 1 (escapeHtml (js ''a&b''))) e"
    by blast
qed

subsection \<open>C10\<close>

text \<open>
  Claim C10. The history starts as the single assistant greeting. In every state the page can
  reach by the user typing and by cycles of \<^verbatim>\<open>sendMessage\<close>, whatever the service answers, the
  history is not empty and begins with that greeting, and so does the message list of every
  request that was sent.
\<close>
theorem history_starts_with_greeting:
  "chatHistory initial = [greeting] \<and> role greeting = js ''assistant'' \<and>
   (reachable s \<longrightarrow>
      chatHistory s \<noteq> [] \<and> hd (chatHistory s) = greeting \<and>
      (\<forall>q\<in>set (fetched s). messages q \<noteq> [] \<and> hd (messages q) = greeting))"
  using reachable_invariant [of s] by (simp add: initial_def greeting_def)

theorem history_starts_with_greeting_witness:
  "\<forall>N sel fr.
     chatHistory (sendMessage N sel fr (initial\<lparr>userInput_value := js ''hi''\<rparr>)) \<noteq> [] \<and>
     hd (chatHistory (sendMessage N sel fr (initial\<lparr>userInput_value := js ''hi''\<rparr>))) = greeting \<and>
     map (\<lambda>q. hd (messages q)) (fetched (sendMessage N sel fr (initial\<lparr>userInput_value := js ''hi''\<rparr>))) = [greeting]"
proof (intro allI)
  fix N :: numbers and sel :: selector and fr :: fetch_result
  let ?s' = "sendMessage N sel fr (initial\<lparr>userInput_value := js ''hi''\<rparr>)"
  have "reachable ?s'"
    by (intro reachable.intros)
  with history_starts_with_greeting [of ?s']
  have inv: "chatHistory ?s' \<noteq> [] \<and> hd (chatHistory ?s') = greeting \<and>
      (\<forall>q\<in>set (fetched ?s'). messages q \<noteq> [] \<and> hd (messages q) = greeting)"
    by blast
  have t: "trim (js ''hi'') = js ''hi''" "js ''hi'' \<noteq> []"
    by (simp_all add: trim_def js_def isWhiteSpace_def)
  have "length (fetched ?s') = 1"
    using sendMessage_try_fetched [of N "getAgent sel" fr]
    by (simp add: sendMessage_def Let_def t split: prod.splits option.splits)
      (auto simp add: initial_def addMessageToChat_def dest!: arg_cong [where f = fst])
  then obtain q where "fetched ?s' = [q]"
    by (cases "fetched ?s'") auto
  with inv show "chatHistory ?s' \<noteq> [] \<and> hd (chatHistory ?s') = greeting \<and>
     map (\<lambda>q. hd (messages q)) (fetched ?s') = [greeting]"
    by simp
qed

end
